theory Spec2Isabelle
  imports Main "HOL-Library.AList"
begin

section \<open>Task records (src/core/task.py)\<close>

text \<open>
  Python strings that the code only compares are modelled as \<open>string\<close>; the two
  non-ASCII literals of the source are written as their UTF-8 bytes. Tags, whose
  characters the code inspects, are lists of Unicode code points. Timestamps and dates are opaque natural numbers;
  \<open>datetime.now()\<close>, \<open>uuid.uuid4()\<close> and \<open>strptime\<close> are parameters of the
  functions that call them. Python sets are HOL sets: their iteration order is
  unspecified in the source, and no modelled loop depends on it.
\<close>

type_synonym datetime = nat
type_synonym date = nat
type_synonym codepoint = nat
type_synonym ustring = "codepoint list"

datatype status = Pendente | Concluida

definition Media_str :: string where
  "Media_str = ''M'' @ [CHR 0xC3, CHR 0xA9] @ ''dia''"

definition Concluida_str :: string where
  "Concluida_str = ''Conclu'' @ [CHR 0xC3, CHR 0xAD] @ ''da''"

definition VALID_PRIORITIES :: "string list" where
  "VALID_PRIORITIES = [''Alta'', Media_str, ''Baixa'']"

definition VALID_STATUSES :: "string list" where
  "VALID_STATUSES = [''Pendente'', Concluida_str]"

definition EISENHOWER_QUADRANTS :: "string list" where
  "EISENHOWER_QUADRANTS = [''Q1'', ''Q2'', ''Q3'', ''Q4'']"

text \<open>
  The attribute \<open>status\<close> only ever holds one of the two strings of
  \<open>VALID_STATUSES\<close> (the constructor and \<open>update\<close> reject anything else), so the
  stored value is the two-valued type \<open>status\<close>.
\<close>

definition status_of_str :: "string \<Rightarrow> status" where
  "status_of_str s = (if s = ''Pendente'' then Pendente else Concluida)"

record task =
  task_id :: string
  title :: string
  description :: string
  priority :: string
  category :: string
  status :: status
  creation_date :: datetime
  completion_date :: "datetime option"
  due_date :: "date option"
  eisenhower_quadrant :: "string option"
  depends_on_ids :: "string set"
  projects :: "ustring set"
  contexts :: "ustring set"

text \<open>Every exception of the modelled code is a \<open>ValueError\<close>; the constructors name its message.\<close>

datatype error =
    EmptyTitle
  | InvalidPriority string
  | InvalidStatus string
  | InvalidQuadrant string
  | InvalidDateFormat
  | DependencyNotFound string
  | DependencyCycle string

definition set_or_empty :: "'a list option \<Rightarrow> 'a set" where
  "set_or_empty xs = (case xs of None \<Rightarrow> {} | Some ys \<Rightarrow> set ys)"

text \<open>
  \<open>Task.__init__\<close>, arguments in the order of the Python signature, after the three
  environment parameters. An absent or empty \<open>task_id\<close> or \<open>due_date_str\<close> is falsy.
\<close>

definition Task_init ::
  "(string \<Rightarrow> date option) \<Rightarrow> datetime \<Rightarrow> string \<Rightarrow>
   string \<Rightarrow> string \<Rightarrow> string option \<Rightarrow> string \<Rightarrow> string \<Rightarrow> string \<Rightarrow>
   string option \<Rightarrow> datetime option \<Rightarrow> datetime option \<Rightarrow> string option \<Rightarrow>
   string list option \<Rightarrow> ustring list option \<Rightarrow> ustring list option \<Rightarrow> error + task" where
  "Task_init strptime now uuid ttl descr due_date_str prio cat stat tid creation completion
      quadrant deps projs ctxs =
    (if ttl = [] then Inl EmptyTitle
     else if prio \<notin> set VALID_PRIORITIES then Inl (InvalidPriority prio)
     else if stat \<notin> set VALID_STATUSES then Inl (InvalidStatus stat)
     else if quadrant \<noteq> None \<and> the quadrant \<notin> set EISENHOWER_QUADRANTS
       then Inl (InvalidQuadrant (the quadrant))
     else
       let st = status_of_str stat;
           t0 = \<lparr> task_id = (case tid of None \<Rightarrow> uuid | Some i \<Rightarrow> if i = [] then uuid else i),
                  title = ttl, description = descr, priority = prio, category = cat,
                  status = st,
                  creation_date = (case creation of None \<Rightarrow> now | Some c \<Rightarrow> c),
                  completion_date =
                    (if st = Concluida \<and> completion = None then Some now
                     else if st = Pendente then None else completion),
                  due_date = None,
                  eisenhower_quadrant = quadrant,
                  depends_on_ids = set_or_empty deps,
                  projects = set_or_empty projs,
                  contexts = set_or_empty ctxs \<rparr>
       in (case due_date_str of
             None \<Rightarrow> Inr t0
           | Some s \<Rightarrow>
               if s = [] then Inr t0
               else (case strptime s of
                       None \<Rightarrow> Inl InvalidDateFormat
                     | Some d \<Rightarrow> Inr (t0\<lparr>due_date := Some d\<rparr>))))"

definition mark_complete :: "datetime \<Rightarrow> task \<Rightarrow> task" where
  "mark_complete now t =
    (if status t = Pendente then t\<lparr>status := Concluida, completion_date := Some now\<rparr> else t)"

definition mark_pending :: "task \<Rightarrow> task" where
  "mark_pending t =
    (if status t = Concluida then t\<lparr>status := Pendente, completion_date := None\<rparr> else t)"

section \<open>The task manager (src/core/task_manager.py)\<close>

text \<open>
  \<open>self.tasks\<close> and \<open>self._task_map\<close> hold references to the same \<open>Task\<close> objects,
  which the methods mutate in place. The objects live in \<open>heap\<close> (a reference is an
  index into it, allocation appends), \<open>tasks\<close> is the list of references and
  \<open>task_map\<close> the dictionary from ids to references, in insertion order. Writing the
  storage file (\<open>save_tasks\<close>) does not change the manager and is left out.
\<close>

type_synonym ref = nat

record manager =
  heap :: "task list"
  tasks :: "ref list"
  task_map :: "(string \<times> ref) list"

definition obj :: "manager \<Rightarrow> ref \<Rightarrow> task" where
  "obj m r = heap m ! r"

definition set_obj :: "manager \<Rightarrow> ref \<Rightarrow> task \<Rightarrow> manager" where
  "set_obj m r t = m\<lparr>heap := (heap m)[r := t]\<rparr>"

definition get_task_by_id :: "manager \<Rightarrow> string \<Rightarrow> ref option" where
  "get_task_by_id m k = map_of (task_map m) k"

text \<open>\<open>TaskManager.__init__\<close> from the list that \<open>load_tasks\<close> returns.\<close>

definition manager_init :: "task list \<Rightarrow> manager" where
  "manager_init loaded =
    \<lparr> heap = loaded, tasks = [0..<length loaded],
      task_map = fold (\<lambda>r al. AList.update (task_id (loaded ! r)) r al) [0..<length loaded] [] \<rparr>"

text \<open>
  \<open>_check_circular_dependency\<close>. Each recursive call receives its own copy of
  \<open>visited\<close>, so the loop over the dependency set returns \<open>True\<close> exactly when some
  element is \<open>task_id\<close> or is unvisited and recursively reaches it.
\<close>

function check_circular_dependency :: "manager \<Rightarrow> string \<Rightarrow> string \<Rightarrow> string set \<Rightarrow> bool" where
  "check_circular_dependency m tid dependency_id visited =
    (case get_task_by_id m dependency_id of
       None \<Rightarrow> False
     | Some r \<Rightarrow>
         (\<exists>d \<in> depends_on_ids (obj m r).
            if d = tid then True
            else if d \<in> insert dependency_id visited then False
            else check_circular_dependency m tid d (insert dependency_id visited)))"
  by pat_completeness auto
termination
proof (relation "measure (\<lambda>(m, t, d, v).
          2 * card (fst ` set (task_map m) - v) + (if d \<in> v then 1 else 0))", goal_cases)
  case 1
  show ?case by simp
next
  case (2 m tid dependency_id visited r d)
  let ?L = "fst ` set (task_map m)"
  have live: "dependency_id \<in> ?L"
    using 2(1) by (auto simp: get_task_by_id_def dest!: map_of_SomeD intro: rev_image_eqI)
  have fin: "finite (?L - visited)" by simp
  have dnot: "d \<notin> insert dependency_id visited" using 2 by simp
  show ?case
  proof (cases "dependency_id \<in> visited")
    case True
    then have "insert dependency_id visited = visited" by auto
    with True dnot show ?thesis by simp
  next
    case False
    with live have "?L - insert dependency_id visited \<subset> ?L - visited" by auto
    then have "card (?L - insert dependency_id visited) < card (?L - visited)"
      using fin by (rule psubset_card_mono[rotated])
    with False dnot show ?thesis by simp
  qed
qed

declare check_circular_dependency.simps [simp del]

text \<open>
  \<open>_normalize_tag\<close>: \<open>re.sub(r'\s+', ' ', tag).strip().lower()\<close>. The class \<open>\s\<close> of
  a \<open>str\<close> pattern and \<open>strip()\<close> use the same whitespace table of the Python runtime,
  which is \<open>is_space\<close>. The case mapping of \<open>str.lower\<close> is not part of the source:
  it is the parameter \<open>lower\<close>.
\<close>

definition is_space :: "codepoint \<Rightarrow> bool" where
  "is_space c \<longleftrightarrow>
     (0x09 \<le> c \<and> c \<le> 0x0D) \<or> (0x1C \<le> c \<and> c \<le> 0x20) \<or> c = 0x85 \<or> c = 0xA0 \<or>
     c = 0x1680 \<or> (0x2000 \<le> c \<and> c \<le> 0x200A) \<or> c = 0x2028 \<or> c = 0x2029 \<or>
     c = 0x202F \<or> c = 0x205F \<or> c = 0x3000"

definition blank :: codepoint where
  "blank = 0x20"

function collapse_ws :: "ustring \<Rightarrow> ustring" where
  "collapse_ws [] = []"
| "collapse_ws (c # cs) =
    (if is_space c then blank # collapse_ws (dropWhile is_space cs)
     else c # collapse_ws cs)"
  by pat_completeness auto
termination
  by (relation "measure length") (auto simp: length_dropWhile_le less_Suc_eq_le)

definition strip :: "ustring \<Rightarrow> ustring" where
  "strip s = rev (dropWhile is_space (rev (dropWhile is_space s)))"

definition normalize_tag :: "(ustring \<Rightarrow> ustring) \<Rightarrow> ustring \<Rightarrow> ustring" where
  "normalize_tag lower tag = lower (strip (collapse_ws tag))"

text \<open>
  What the methods print, one constructor for each message of the source with the
  values it interpolates. The methods return their Python result, the messages printed
  and the manager afterwards.
\<close>

datatype msg =
    TaskNotFound string
  | DependencyTaskNotFound string
  | SelfDependency
  | AlreadyDependsOn string string
  | WouldCreateCycle string string
  | DependencyAdded string string
  | HasDependents string "string list"
  | MissingDependenciesRemoved string "string set"
  | PendingDependencies string "(string \<times> string) set"
  | AlreadyComplete string
  | AlreadyPending string
  | CompletedDependents string "(string \<times> string) list"
  | InvalidTagName string
  | AlreadyHasTag string string ustring
  | TagAdded string ustring string
  | NotInTag string string ustring
  | TagRemoved string ustring string

text \<open>The loop of \<open>add_task\<close> over the requested dependency ids, in their order.\<close>

fun validate_deps :: "manager \<Rightarrow> string \<Rightarrow> string list \<Rightarrow> error option" where
  "validate_deps m temp_task_id [] = None"
| "validate_deps m temp_task_id (dep_id # rest) =
    (if get_task_by_id m dep_id = None then Some (DependencyNotFound dep_id)
     else if check_circular_dependency m temp_task_id dep_id {} then Some (DependencyCycle dep_id)
     else validate_deps m temp_task_id rest)"

definition normalized_tags :: "(ustring \<Rightarrow> ustring) \<Rightarrow> ustring list option \<Rightarrow> ustring list option" where
  "normalized_tags lower xs =
    (case xs of None \<Rightarrow> Some []
     | Some ys \<Rightarrow> Some (map (normalize_tag lower) (filter (\<lambda>p. p \<noteq> []) ys)))"

text \<open>
  \<open>add_task\<close>; \<open>uuid\<close> is the string that \<open>uuid.uuid4()\<close> returns and \<open>lower\<close> the
  case mapping that \<open>_normalize_tag\<close> uses. The result is the
  reference of the new task or the \<open>ValueError\<close> raised, with the manager as it is
  when the method returns or raises.
\<close>

definition add_task ::
  "(string \<Rightarrow> date option) \<Rightarrow> datetime \<Rightarrow> string \<Rightarrow> (ustring \<Rightarrow> ustring) \<Rightarrow> manager \<Rightarrow>
   string \<Rightarrow> string \<Rightarrow> string option \<Rightarrow> string \<Rightarrow> string \<Rightarrow> string option \<Rightarrow>
   string list option \<Rightarrow> ustring list option \<Rightarrow> ustring list option \<Rightarrow> (error + ref) \<times> manager" where
  "add_task strptime now uuid lower m ttl descr due_date_str prio cat quadrant deps projs ctxs =
    (case (case deps of None \<Rightarrow> None | Some ds \<Rightarrow> validate_deps m uuid ds) of
       Some e \<Rightarrow> (Inl e, m)
     | None \<Rightarrow>
        (case Task_init strptime now uuid ttl descr due_date_str prio cat ''Pendente''
                (Some uuid) None None quadrant deps (normalized_tags lower projs) (normalized_tags lower ctxs) of
           Inl e \<Rightarrow> (Inl e, m)
         | Inr new_task \<Rightarrow>
             let r = length (heap m) in
             (Inr r, \<lparr> heap = heap m @ [new_task], tasks = tasks m @ [r],
                      task_map = AList.update (task_id new_task) r (task_map m) \<rparr>)))"

definition delete_task :: "manager \<Rightarrow> string \<Rightarrow> bool \<times> msg list \<times> manager" where
  "delete_task m tid =
    (case get_task_by_id m tid of
       None \<Rightarrow> (False, [TaskNotFound tid], m)
     | Some r \<Rightarrow>
         let blocking_tasks =
               map (\<lambda>q. task_id (obj m q)) (filter (\<lambda>q. tid \<in> depends_on_ids (obj m q)) (tasks m))
         in if blocking_tasks \<noteq> [] then (False, [HasDependents tid blocking_tasks], m)
            else (True, [], m\<lparr>tasks := remove1 r (tasks m),
                               task_map := AList.delete tid (task_map m)\<rparr>))"

definition is_pending_dep :: "manager \<Rightarrow> string \<Rightarrow> bool" where
  "is_pending_dep m dep_id =
    (case get_task_by_id m dep_id of None \<Rightarrow> False | Some q \<Rightarrow> status (obj m q) = Pendente)"

definition can_complete_task :: "manager \<Rightarrow> string \<Rightarrow> bool \<times> msg list \<times> manager" where
  "can_complete_task m tid =
    (case get_task_by_id m tid of
       None \<Rightarrow> (False, [TaskNotFound tid], m)
     | Some r \<Rightarrow>
         let deps = depends_on_ids (obj m r) in
         if deps = {} then (True, [], m)
         else
           let missing_deps = Set.filter (\<lambda>d. get_task_by_id m d = None) deps;
               incomplete_deps =
                 (\<lambda>d. (title (obj m (the (get_task_by_id m d))), d)) ` Set.filter (is_pending_dep m) deps;
               m1 = (if missing_deps \<noteq> {}
                     then set_obj m r ((obj m r)\<lparr>depends_on_ids := deps - missing_deps\<rparr>) else m);
               out1 = (if missing_deps \<noteq> {} then [MissingDependenciesRemoved tid missing_deps] else [])
           in if incomplete_deps \<noteq> {} then (False, out1 @ [PendingDependencies tid incomplete_deps], m1)
              else (True, out1, m1))"

definition mark_task_complete :: "datetime \<Rightarrow> manager \<Rightarrow> string \<Rightarrow> ref option \<times> msg list \<times> manager" where
  "mark_task_complete now m tid =
    (case can_complete_task m tid of
       (ok, out, m1) \<Rightarrow>
         if \<not> ok then (None, out, m1)
         else (case get_task_by_id m1 tid of
                 None \<Rightarrow> (None, out, m1)
               | Some r \<Rightarrow>
                   if status (obj m1 r) = Pendente
                   then (Some r, out, set_obj m1 r (mark_complete now (obj m1 r)))
                   else (None, out @ [AlreadyComplete tid], m1)))"

definition mark_task_pending :: "manager \<Rightarrow> string \<Rightarrow> ref option \<times> msg list \<times> manager" where
  "mark_task_pending m tid =
    (case get_task_by_id m tid of
       None \<Rightarrow> (None, [TaskNotFound tid], m)
     | Some r \<Rightarrow>
         if status (obj m r) = Pendente then (None, [AlreadyPending tid], m)
         else
           let blocked_completed_tasks =
                 map (\<lambda>q. (title (obj m q), task_id (obj m q)))
                   (filter (\<lambda>q. tid \<in> depends_on_ids (obj m q) \<and> status (obj m q) = Concluida) (tasks m))
           in if blocked_completed_tasks \<noteq> [] then (None, [CompletedDependents tid blocked_completed_tasks], m)
              else (Some r, [], set_obj m r (mark_pending (obj m r))))"

definition add_dependency :: "manager \<Rightarrow> string \<Rightarrow> string \<Rightarrow> bool \<times> msg list \<times> manager" where
  "add_dependency m tid dependency_id =
    (case get_task_by_id m tid of
       None \<Rightarrow> (False, [TaskNotFound tid], m)
     | Some r \<Rightarrow>
        (case get_task_by_id m dependency_id of
           None \<Rightarrow> (False, [DependencyTaskNotFound dependency_id], m)
         | Some q \<Rightarrow>
             if tid = dependency_id then (False, [SelfDependency], m)
             else if dependency_id \<in> depends_on_ids (obj m r)
               then (True, [AlreadyDependsOn tid dependency_id], m)
             else if check_circular_dependency m tid dependency_id {}
               then (False, [WouldCreateCycle tid dependency_id], m)
             else (True, [DependencyAdded dependency_id tid],
                   set_obj m r ((obj m r)\<lparr>depends_on_ids := insert dependency_id (depends_on_ids (obj m r))\<rparr>))))"

definition tag_set :: "string \<Rightarrow> task \<Rightarrow> ustring set" where
  "tag_set tag_type t = (if tag_type = ''projeto'' then projects t else contexts t)"

definition set_tag_set :: "string \<Rightarrow> ustring set \<Rightarrow> task \<Rightarrow> task" where
  "set_tag_set tag_type s t = (if tag_type = ''projeto'' then t\<lparr>projects := s\<rparr> else t\<lparr>contexts := s\<rparr>)"

definition add_tag_to_task ::
  "(ustring \<Rightarrow> ustring) \<Rightarrow> manager \<Rightarrow> string \<Rightarrow> ustring \<Rightarrow> string \<Rightarrow> bool \<times> msg list \<times> manager" where
  "add_tag_to_task lower m tid tag tag_type =
    (case get_task_by_id m tid of
       None \<Rightarrow> (False, [TaskNotFound tid], m)
     | Some r \<Rightarrow>
         let normalized_tag = normalize_tag lower tag in
         if normalized_tag = [] then (False, [InvalidTagName tag_type], m)
         else if normalized_tag \<in> tag_set tag_type (obj m r)
           then (True, [AlreadyHasTag tid tag_type normalized_tag], m)
         else (True, [TagAdded tag_type normalized_tag tid],
               set_obj m r (set_tag_set tag_type (insert normalized_tag (tag_set tag_type (obj m r))) (obj m r))))"

definition remove_tag_from_task ::
  "(ustring \<Rightarrow> ustring) \<Rightarrow> manager \<Rightarrow> string \<Rightarrow> ustring \<Rightarrow> string \<Rightarrow> bool \<times> msg list \<times> manager" where
  "remove_tag_from_task lower m tid tag tag_type =
    (case get_task_by_id m tid of
       None \<Rightarrow> (False, [TaskNotFound tid], m)
     | Some r \<Rightarrow>
         let normalized_tag = normalize_tag lower tag in
         if normalized_tag \<notin> tag_set tag_type (obj m r)
           then (False, [NotInTag tid tag_type normalized_tag], m)
         else (True, [TagRemoved tag_type normalized_tag tid],
               set_obj m r (set_tag_set tag_type (tag_set tag_type (obj m r) - {normalized_tag}) (obj m r))))"

definition add_project_to_task ::
  "(ustring \<Rightarrow> ustring) \<Rightarrow> manager \<Rightarrow> string \<Rightarrow> ustring \<Rightarrow> bool \<times> msg list \<times> manager" where
  "add_project_to_task lower m tid project_name = add_tag_to_task lower m tid project_name ''projeto''"

definition add_context_to_task ::
  "(ustring \<Rightarrow> ustring) \<Rightarrow> manager \<Rightarrow> string \<Rightarrow> ustring \<Rightarrow> bool \<times> msg list \<times> manager" where
  "add_context_to_task lower m tid context_name = add_tag_to_task lower m tid context_name ''contexto''"

definition remove_project_from_task ::
  "(ustring \<Rightarrow> ustring) \<Rightarrow> manager \<Rightarrow> string \<Rightarrow> ustring \<Rightarrow> bool \<times> msg list \<times> manager" where
  "remove_project_from_task lower m tid project_name = remove_tag_from_task lower m tid project_name ''projeto''"

definition remove_context_from_task ::
  "(ustring \<Rightarrow> ustring) \<Rightarrow> manager \<Rightarrow> string \<Rightarrow> ustring \<Rightarrow> bool \<times> msg list \<times> manager" where
  "remove_context_from_task lower m tid context_name = remove_tag_from_task lower m tid context_name ''contexto''"

section \<open>Registry consistency and the dependency graph\<close>

text \<open>
  The registry is consistent when the list holds distinct, allocated references, the
  dictionary has one entry per key, every listed task is indexed under its own id and
  every entry of the dictionary refers to a listed task with that id.
\<close>

definition consistent :: "manager \<Rightarrow> bool" where
  "consistent m \<longleftrightarrow>
     distinct (tasks m) \<and> distinct (map fst (task_map m)) \<and>
     (\<forall>r \<in> set (tasks m). r < length (heap m) \<and> get_task_by_id m (task_id (obj m r)) = Some r) \<and>
     (\<forall>(k, r) \<in> set (task_map m). r \<in> set (tasks m) \<and> task_id (obj m r) = k)"

definition edges :: "manager \<Rightarrow> (string \<times> string) set" where
  "edges m = (\<Union>r \<in> set (tasks m). (\<lambda>d. (task_id (obj m r), d)) ` depends_on_ids (obj m r))"

definition live_ids :: "manager \<Rightarrow> string set" where
  "live_ids m = fst ` set (task_map m)"

text \<open>The edges that a traversal sees: it resolves every id through the dictionary.\<close>

definition map_edges :: "manager \<Rightarrow> (string \<times> string) set" where
  "map_edges m = {(k, d). \<exists>r. get_task_by_id m k = Some r \<and> d \<in> depends_on_ids (obj m r)}"

definition unvisited_edges :: "manager \<Rightarrow> string set \<Rightarrow> (string \<times> string) set" where
  "unvisited_edges m V = {(a, b). (a, b) \<in> map_edges m \<and> b \<notin> V}"



text \<open>A sequence of \<open>add_dependency\<close> calls, each on the manager the previous one left.\<close>

fun add_dependencies :: "manager \<Rightarrow> (string \<times> string) list \<Rightarrow> manager" where
  "add_dependencies m [] = m"
| "add_dependencies m ((tid, dependency_id) # calls) =
     add_dependencies (snd (snd (add_dependency m tid dependency_id))) calls"

text \<open>Example data for the closed instances below.\<close>

definition example_task :: "string \<Rightarrow> status \<Rightarrow> datetime option \<Rightarrow> string set \<Rightarrow> task" where
  "example_task i st done deps =
    \<lparr> task_id = i, title = i, description = [], priority = ''Alta'', category = ''Geral'',
      status = st, creation_date = 0, completion_date = done, due_date = None,
      eisenhower_quadrant = None, depends_on_ids = deps, projects = {}, contexts = {} \<rparr>"

definition example_abc :: manager where
  "example_abc = manager_init [example_task ''A'' Pendente None {},
     example_task ''B'' Pendente None {}, example_task ''C'' Pendente None {}]"

definition example_chain :: manager where
  "example_chain = manager_init [example_task ''A'' Pendente None {''B''},
     example_task ''B'' Pendente None {''C''}, example_task ''C'' Pendente None {}]"

definition example_ab :: manager where
  "example_ab = manager_init [example_task ''A'' Pendente None {''B''},
     example_task ''B'' Pendente None {}, example_task ''C'' Pendente None {}]"

definition example_blocked :: manager where
  "example_blocked = manager_init [example_task ''A'' Pendente None {''B'', ''C'', ''Z''},
     example_task ''B'' Concluida (Some 1) {}, example_task ''C'' Pendente None {}]"

definition example_done_chain :: manager where
  "example_done_chain = manager_init [example_task ''A'' Concluida (Some 1) {},
     example_task ''B'' Concluida (Some 2) {''A''}, example_task ''C'' Pendente None {''B''}]"

definition example_done_blocked :: manager where
  "example_done_blocked = manager_init [example_task ''A'' Concluida (Some 1) {''B''},
     example_task ''B'' Pendente None {}]"

definition example_done_dangling :: manager where
  "example_done_dangling = manager_init [example_task ''A'' Concluida (Some 1) {''Z''}]"

text \<open>
  The normal form in the words of the specification. The words of a tag are its
  maximal runs of characters that are not whitespace. Trimming the tag and
  collapsing every interior run of whitespace to one blank leaves the words, joined
  by single blanks.
\<close>

function words_of :: "ustring \<Rightarrow> ustring list" where
  "words_of s =
    (case dropWhile is_space s of
       [] \<Rightarrow> []
     | c # cs \<Rightarrow> (c # takeWhile (\<lambda>x. \<not> is_space x) cs) # words_of (dropWhile (\<lambda>x. \<not> is_space x) cs))"
  by pat_completeness auto
termination
proof (relation "measure length", goal_cases)
  case 1
  show ?case by simp
next
  case (2 s c cs)
  have "length (dropWhile (\<lambda>x. \<not> is_space x) cs) \<le> length cs" by (rule length_dropWhile_le)
  moreover have "length (dropWhile is_space s) \<le> length s" by (rule length_dropWhile_le)
  ultimately show ?case using 2 by simp
qed

declare words_of.simps [simp del]

fun join_blank :: "ustring list \<Rightarrow> ustring" where
  "join_blank [] = []"
| "join_blank [w] = w"
| "join_blank (w # v # ws) = w @ blank # join_blank (v # ws)"

definition joined_words :: "ustring \<Rightarrow> ustring" where
  "joined_words s = join_blank (words_of s)"

definition spec_normalize :: "(ustring \<Rightarrow> ustring) \<Rightarrow> ustring \<Rightarrow> ustring" where
  "spec_normalize lower s = lower (joined_words s)"

text \<open>The right half of \<open>strip\<close>.\<close>

definition rstrip :: "ustring \<Rightarrow> ustring" where
  "rstrip t = rev (dropWhile is_space (rev t))"

text \<open>
  The code points of an ASCII literal, and a case mapping that agrees with
  \<open>str.lower\<close> on ASCII text, for the closed instances.
\<close>

definition text_of :: "string \<Rightarrow> ustring" where
  "text_of s = map of_char s"

definition ascii_lower :: "ustring \<Rightarrow> ustring" where
  "ascii_lower s = map (\<lambda>c. if 0x41 \<le> c \<and> c \<le> 0x5A then c + 0x20 else c) s"

section \<open>Helper lemmas\<close>


lemma set_obj_fields [simp]:
  "tasks (set_obj m r t) = tasks m" "task_map (set_obj m r t) = task_map m"
  "length (heap (set_obj m r t)) = length (heap m)"
  by (simp_all add: set_obj_def)

lemma get_task_by_id_set_obj [simp]: "get_task_by_id (set_obj m r t) k = get_task_by_id m k"
  by (simp add: get_task_by_id_def)

lemma obj_set_obj: "obj (set_obj m r t) q = (if q = r \<and> r < length (heap m) then t else obj m q)"
  by (auto simp: obj_def set_obj_def list_update_beyond)

subsection \<open>Completion timestamps\<close>

















subsection \<open>The traversal and reachability\<close>

lemma unvisited_edges_mono: "unvisited_edges m (insert d V) \<subseteq> unvisited_edges m V"
  by (auto simp: unvisited_edges_def)

lemma unvisited_edges_empty: "unvisited_edges m {} = map_edges m"
  by (simp add: unvisited_edges_def)

lemma check_sound:
  "check_circular_dependency m t d V \<Longrightarrow>
     \<exists>c. (d, c) \<in> (unvisited_edges m V)\<^sup>* \<and> (c, t) \<in> map_edges m"
proof (induction m t d V rule: check_circular_dependency.induct)
  case (1 m tid dep V)
  from "1.prems" obtain r x where r: "get_task_by_id m dep = Some r"
    and x: "x \<in> depends_on_ids (obj m r)"
    and xc: "x = tid \<or> (x \<noteq> tid \<and> x \<notin> insert dep V \<and> check_circular_dependency m tid x (insert dep V))"
    by (subst (asm) check_circular_dependency.simps) (auto split: option.splits if_splits)
  from r x have e: "(dep, x) \<in> map_edges m" by (auto simp: map_edges_def)
  from xc show ?case
  proof
    assume "x = tid"
    with e show ?thesis by blast
  next
    assume a: "x \<noteq> tid \<and> x \<notin> insert dep V \<and> check_circular_dependency m tid x (insert dep V)"
    then obtain c where c: "(x, c) \<in> (unvisited_edges m (insert dep V))\<^sup>*" "(c, tid) \<in> map_edges m"
      using "1.IH"[OF r x] by blast
    from c(1) have "(x, c) \<in> (unvisited_edges m V)\<^sup>*"
      using rtrancl_mono[OF unvisited_edges_mono] by blast
    moreover from e a have "(dep, x) \<in> unvisited_edges m V" by (simp add: unvisited_edges_def)
    ultimately have "(dep, c) \<in> (unvisited_edges m V)\<^sup>*" by (rule converse_rtrancl_into_rtrancl[rotated])
    with c(2) show ?thesis by blast
  qed
qed

text \<open>A path that avoids \<open>V\<close> can be cut at its last visit of the start node.\<close>

lemma path_split:
  "(d, c) \<in> (unvisited_edges m V)\<^sup>* \<Longrightarrow>
     c = d \<or> (\<exists>x. (d, x) \<in> map_edges m \<and> x \<notin> insert d V \<and> (x, c) \<in> (unvisited_edges m (insert d V))\<^sup>*)"
proof (induction rule: rtrancl_induct)
  case base
  show ?case by simp
next
  case (step y z)
  from step.hyps(2) have yz: "(y, z) \<in> map_edges m" "z \<notin> V" by (auto simp: unvisited_edges_def)
  show ?case
  proof (cases "z = d")
    case True
    then show ?thesis by simp
  next
    case False
    with yz have yz': "(y, z) \<in> unvisited_edges m (insert d V)" by (simp add: unvisited_edges_def)
    from step.IH show ?thesis
    proof
      assume "y = d"
      with yz False show ?thesis by blast
    next
      assume "\<exists>x. (d, x) \<in> map_edges m \<and> x \<notin> insert d V \<and> (x, y) \<in> (unvisited_edges m (insert d V))\<^sup>*"
      then obtain x where x: "(d, x) \<in> map_edges m" "x \<notin> insert d V"
        "(x, y) \<in> (unvisited_edges m (insert d V))\<^sup>*" by blast
      from x(3) yz' have "(x, z) \<in> (unvisited_edges m (insert d V))\<^sup>*" by (rule rtrancl_into_rtrancl)
      with x show ?thesis by blast
    qed
  qed
qed

lemma check_edge:
  "(d, x) \<in> map_edges m \<Longrightarrow> x = t \<or> (x \<notin> insert d V \<and> check_circular_dependency m t x (insert d V))
     \<Longrightarrow> check_circular_dependency m t d V"
  by (subst check_circular_dependency.simps) (auto simp: map_edges_def split: option.splits)

lemma check_complete:
  "(d, c) \<in> (unvisited_edges m V)\<^sup>* \<Longrightarrow> (c, t) \<in> map_edges m \<Longrightarrow> check_circular_dependency m t d V"
proof (induction m t d V arbitrary: c rule: check_circular_dependency.induct)
  case (1 m tid dep V)
  from path_split[OF "1.prems"(1)] show ?case
  proof
    assume "c = dep"
    with "1.prems"(2) show ?thesis by (auto intro: check_edge)
  next
    assume "\<exists>x. (dep, x) \<in> map_edges m \<and> x \<notin> insert dep V \<and> (x, c) \<in> (unvisited_edges m (insert dep V))\<^sup>*"
    then obtain x where x: "(dep, x) \<in> map_edges m" "x \<notin> insert dep V"
      "(x, c) \<in> (unvisited_edges m (insert dep V))\<^sup>*" by blast
    from x(1) obtain r where r: "get_task_by_id m dep = Some r" "x \<in> depends_on_ids (obj m r)"
      by (auto simp: map_edges_def)
    show ?thesis
    proof (cases "x = tid")
      case True
      with x(1) show ?thesis by (auto intro: check_edge)
    next
      case False
      have "check_circular_dependency m tid x (insert dep V)"
        using "1.IH"[OF r False x(2) x(3) "1.prems"(2)] .
      with x show ?thesis by (auto intro: check_edge)
    qed
  qed
qed

lemma check_iff_reachable:
  "check_circular_dependency m t d {} \<longleftrightarrow> (d, t) \<in> (map_edges m)\<^sup>+"
proof
  assume "check_circular_dependency m t d {}"
  from check_sound[OF this] show "(d, t) \<in> (map_edges m)\<^sup>+"
    by (auto simp: unvisited_edges_empty intro: rtrancl_into_trancl1)
next
  assume "(d, t) \<in> (map_edges m)\<^sup>+"
  then obtain c where "(d, c) \<in> (map_edges m)\<^sup>*" "(c, t) \<in> map_edges m"
    by (auto dest: tranclD2)
  then show "check_circular_dependency m t d {}"
    by (auto intro: check_complete simp: unvisited_edges_empty)
qed

subsection \<open>Consistent registries\<close>

lemma consistent_lookup:
  assumes "consistent m" "get_task_by_id m k = Some r"
  shows "r \<in> set (tasks m)" "task_id (obj m r) = k" "r < length (heap m)"
proof -
  from assms(2) have "(k, r) \<in> set (task_map m)"
    by (auto simp: get_task_by_id_def dest: map_of_SomeD)
  with assms(1) show "r \<in> set (tasks m)" "task_id (obj m r) = k"
    by (auto simp: consistent_def)
  with assms(1) show "r < length (heap m)" by (simp add: consistent_def)
qed

lemma consistent_listed:
  "consistent m \<Longrightarrow> r \<in> set (tasks m) \<Longrightarrow> get_task_by_id m (task_id (obj m r)) = Some r"
  by (simp add: consistent_def)

lemma consistent_edges: "consistent m \<Longrightarrow> map_edges m = edges m"
proof (intro set_eqI iffI)
  fix e assume c: "consistent m" and "e \<in> map_edges m"
  then obtain k d r where "e = (k, d)" "get_task_by_id m k = Some r" "d \<in> depends_on_ids (obj m r)"
    by (auto simp: map_edges_def)
  with consistent_lookup[OF c this(2)] show "e \<in> edges m"
    by (auto simp: edges_def)
next
  fix e assume c: "consistent m" and "e \<in> edges m"
  then obtain r d where "e = (task_id (obj m r), d)" "r \<in> set (tasks m)" "d \<in> depends_on_ids (obj m r)"
    by (auto simp: edges_def)
  with consistent_listed[OF c this(2)] show "e \<in> map_edges m"
    by (auto simp: map_edges_def)
qed

lemma edgesI:
  "q \<in> set (tasks m) \<Longrightarrow> a = task_id (obj m q) \<Longrightarrow> d \<in> depends_on_ids (obj m q) \<Longrightarrow> (a, d) \<in> edges m"
  by (auto simp: edges_def)

lemma consistent_set_obj:
  assumes "consistent m" "task_id t = task_id (obj m r)"
  shows "consistent (set_obj m r t)"
proof -
  have "task_id (obj (set_obj m r t) q) = task_id (obj m q)" for q
    using assms(2) by (simp add: obj_set_obj)
  with assms(1) show ?thesis
    by (simp add: consistent_def)
qed

lemma edges_set_deps:
  assumes c: "consistent m" and g: "get_task_by_id m k = Some r"
  shows "edges (set_obj m r ((obj m r)\<lparr>depends_on_ids := D\<rparr>)) =
           {e \<in> edges m. fst e \<noteq> k} \<union> {k} \<times> D"
proof -
  let ?m' = "set_obj m r ((obj m r)\<lparr>depends_on_ids := D\<rparr>)"
  note l = consistent_lookup[OF c g]
  have same: "obj ?m' q = obj m q" if "q \<noteq> r" for q using that by (simp add: obj_set_obj)
  have at: "obj ?m' r = (obj m r)\<lparr>depends_on_ids := D\<rparr>" using l(3) by (simp add: obj_set_obj)
  have other: "task_id (obj m q) \<noteq> k" if "q \<in> set (tasks m)" "q \<noteq> r" for q
    using consistent_listed[OF c that(1)] g that(2) by auto
  show ?thesis
  proof (intro set_eqI iffI)
    fix e assume "e \<in> edges ?m'"
    then obtain q d where q: "q \<in> set (tasks m)" "e = (task_id (obj ?m' q), d)" "d \<in> depends_on_ids (obj ?m' q)"
      by (auto simp: edges_def)
    show "e \<in> {e \<in> edges m. fst e \<noteq> k} \<union> {k} \<times> D"
    proof (cases "q = r")
      case True
      with q at l(2) show ?thesis by simp
    next
      case False
      with q same[OF False] other[OF q(1) False] show ?thesis by (auto simp: edges_def)
    qed
  next
    fix e assume "e \<in> {e \<in> edges m. fst e \<noteq> k} \<union> {k} \<times> D"
    then show "e \<in> edges ?m'"
    proof
      assume "e \<in> {e \<in> edges m. fst e \<noteq> k}"
      then obtain q d where q: "q \<in> set (tasks m)" "e = (task_id (obj m q), d)" "d \<in> depends_on_ids (obj m q)"
        "task_id (obj m q) \<noteq> k" by (auto simp: edges_def)
      with l(2) have "q \<noteq> r" by auto
      from q same[OF this] show ?thesis by (auto intro!: edgesI[where q = q])
    next
      assume "e \<in> {k} \<times> D"
      with l(1) l(2) at show ?thesis by (auto intro!: edgesI[where q = r])
    qed
  qed
qed

lemma edges_of_task:
  assumes c: "consistent m" and g: "get_task_by_id m k = Some r"
  shows "(k, d) \<in> edges m \<longleftrightarrow> d \<in> depends_on_ids (obj m r)"
  using g by (auto simp: consistent_edges[OF c, symmetric] map_edges_def)

lemma edges_insert_dep:
  assumes c: "consistent m" and g: "get_task_by_id m k = Some r"
  shows "edges (set_obj m r ((obj m r)\<lparr>depends_on_ids := insert d (depends_on_ids (obj m r))\<rparr>)) =
           insert (k, d) (edges m)"
  unfolding edges_set_deps[OF c g] using edges_of_task[OF c g] by auto

section \<open>Completion timestamp and status\<close>



subsection \<open>Adding dependencies\<close>

lemmas example_defs = manager_init_def example_task_def get_task_by_id_def obj_def set_obj_def upt_rec

lemma add_dependency_consistent:
  "consistent m \<Longrightarrow> consistent (snd (snd (add_dependency m t d)))"
  by (auto simp: add_dependency_def consistent_set_obj split: option.splits)

lemma add_dependency_edges:
  assumes c: "consistent m"
  shows "edges (snd (snd (add_dependency m t d))) = edges m \<or>
         (t \<noteq> d \<and> \<not> check_circular_dependency m t d {} \<and>
          edges (snd (snd (add_dependency m t d))) = insert (t, d) (edges m))"
  by (auto simp: add_dependency_def edges_insert_dep[OF c] split: option.splits)

lemma add_dependency_acyclic:
  assumes c: "consistent m" and a: "acyclic (edges m)"
  shows "acyclic (edges (snd (snd (add_dependency m t d))))"
  using add_dependency_edges[OF c, of t d]
proof
  assume "edges (snd (snd (add_dependency m t d))) = edges m"
  with a show ?thesis by simp
next
  assume n: "t \<noteq> d \<and> \<not> check_circular_dependency m t d {} \<and>
    edges (snd (snd (add_dependency m t d))) = insert (t, d) (edges m)"
  then have nr: "(d, t) \<notin> (edges m)\<^sup>+"
    by (simp add: check_iff_reachable consistent_edges[OF c])
  from n nr have "(d, t) \<notin> (edges m)\<^sup>*" by (auto simp: rtrancl_eq_or_trancl)
  with a n show ?thesis by (simp add: acyclic_insert)
qed

lemma add_dependencies_invariant:
  "consistent m \<Longrightarrow> acyclic (edges m) \<Longrightarrow>
     consistent (add_dependencies m calls) \<and> acyclic (edges (add_dependencies m calls))"
proof (induction m calls rule: add_dependencies.induct)
  case (1 m)
  then show ?case by simp
next
  case (2 m tid dependency_id calls)
  then show ?case by (simp add: add_dependency_consistent add_dependency_acyclic)
qed

section \<open>Acyclicity of the dependency graph\<close>

text \<open>
  C1. In a consistent registry the cycle check answers \<open>True\<close> exactly when the
  candidate task id is reachable from the new dependency id along existing
  \<open>depends_on_ids\<close> edges. For two distinct live tasks without the edge,
  \<open>add_dependency\<close> fails with the cycle message and changes nothing when the
  candidate is reachable, and otherwise succeeds and adds exactly that edge. Starting
  from an acyclic graph, the graph is acyclic after every prefix of every sequence of
  \<open>add_dependency\<close> calls.
\<close>

theorem dependency_graph_stays_acyclic:
  "consistent m \<Longrightarrow>
    (check_circular_dependency m t d {} \<longleftrightarrow> (d, t) \<in> (edges m)\<^sup>+) \<and>
    (get_task_by_id m t = Some r \<and> get_task_by_id m d \<noteq> None \<and> t \<noteq> d \<and> d \<notin> depends_on_ids (obj m r) \<longrightarrow>
       (if (d, t) \<in> (edges m)\<^sup>* then add_dependency m t d = (False, [WouldCreateCycle t d], m)
        else fst (add_dependency m t d) \<and>
             edges (snd (snd (add_dependency m t d))) = insert (t, d) (edges m))) \<and>
    (acyclic (edges m) \<longrightarrow>
       (\<forall>n. consistent (add_dependencies m (take n calls)) \<and>
            acyclic (edges (add_dependencies m (take n calls)))))"
proof (intro conjI impI allI)
  assume c: "consistent m"
  show chk: "check_circular_dependency m t d {} \<longleftrightarrow> (d, t) \<in> (edges m)\<^sup>+"
    by (simp add: check_iff_reachable consistent_edges[OF c])
  {
    assume g: "get_task_by_id m t = Some r \<and> get_task_by_id m d \<noteq> None \<and> t \<noteq> d \<and> d \<notin> depends_on_ids (obj m r)"
    then have reach: "(d, t) \<in> (edges m)\<^sup>* \<longleftrightarrow> check_circular_dependency m t d {}"
      using chk by (auto simp: rtrancl_eq_or_trancl)
    from g show "if (d, t) \<in> (edges m)\<^sup>* then add_dependency m t d = (False, [WouldCreateCycle t d], m)
        else fst (add_dependency m t d) \<and>
             edges (snd (snd (add_dependency m t d))) = insert (t, d) (edges m)"
      unfolding reach by (auto simp: add_dependency_def edges_insert_dep[OF c])
  }
  {
    fix n assume a: "acyclic (edges m)"
    from add_dependencies_invariant[OF c a]
    show "consistent (add_dependencies m (take n calls))"
      "acyclic (edges (add_dependencies m (take n calls)))" by blast+
  }
qed

theorem dependency_graph_stays_acyclic_witness:
  "consistent example_abc \<and> acyclic (edges example_abc) \<and>
   add_dependencies example_abc [(''A'', ''B''), (''B'', ''C'')] = example_chain \<and>
   consistent example_chain \<and> acyclic (edges example_chain) \<and>
   get_task_by_id example_chain ''C'' = Some 2 \<and> get_task_by_id example_chain ''A'' \<noteq> None \<and> ''C'' \<noteq> ''A'' \<and>
   ''A'' \<notin> depends_on_ids (obj example_chain 2) \<and>
   (''A'', ''C'') \<in> (edges example_chain)\<^sup>* \<and>
   add_dependency example_chain ''C'' ''A'' = (False, [WouldCreateCycle ''C'' ''A''], example_chain) \<and>
   acyclic (edges (add_dependencies example_abc [(''A'', ''B''), (''B'', ''C''), (''C'', ''A'')]))"
proof -
  have c0: "consistent example_abc"
    by (simp add: example_abc_def consistent_def example_defs)
  have a0: "acyclic (edges example_abc)"
    by (simp add: example_abc_def edges_def example_defs acyclic_def)
  have s2: "add_dependencies example_abc [(''A'', ''B''), (''B'', ''C'')] = example_chain"
    by (simp add: example_abc_def example_chain_def add_dependency_def example_defs check_circular_dependency.simps)
  note T0 = dependency_graph_stays_acyclic[OF c0, of _ _ _ "[(''A'', ''B''), (''B'', ''C''), (''C'', ''A'')]"]
  have i2: "consistent example_chain \<and> acyclic (edges example_chain)"
    using T0[THEN conjunct2, THEN conjunct2, rule_format, OF a0, of 2] s2 by (simp add: numeral_2_eq_2)
  have i3: "acyclic (edges (add_dependencies example_abc [(''A'', ''B''), (''B'', ''C''), (''C'', ''A'')]))"
    using T0[THEN conjunct2, THEN conjunct2, rule_format, OF a0, of 3] by simp
  have g: "get_task_by_id example_chain ''C'' = Some 2 \<and> get_task_by_id example_chain ''A'' \<noteq> None \<and> ''C'' \<noteq> ''A'' \<and>
     ''A'' \<notin> depends_on_ids (obj example_chain 2)"
    by (simp add: example_chain_def example_defs)
  have chk: "check_circular_dependency example_chain ''C'' ''A'' {}"
    by (simp add: example_chain_def example_defs check_circular_dependency.simps)
  note T2 = dependency_graph_stays_acyclic[OF conjunct1[OF i2], of "''C''" "''A''" 2]
  from chk T2 have reach: "(''A'', ''C'') \<in> (edges example_chain)\<^sup>*" by (simp add: trancl_into_rtrancl)
  with T2[THEN conjunct2, THEN conjunct1, rule_format, OF g]
  have "add_dependency example_chain ''C'' ''A'' = (False, [WouldCreateCycle ''C'' ''A''], example_chain)" by simp
  with c0 a0 s2 i2 i3 g reach show ?thesis by simp
qed

lemma add_dependency_twice:
  assumes c: "consistent m" and ok: "fst (add_dependency m t d)"
  shows "add_dependency (snd (snd (add_dependency m t d))) t d =
           (True, [AlreadyDependsOn t d], snd (snd (add_dependency m t d)))"
proof -
  from ok obtain r q where g: "get_task_by_id m t = Some r" "get_task_by_id m d = Some q" "t \<noteq> d"
    by (auto simp: add_dependency_def split: option.splits if_splits)
  note l = consistent_lookup[OF c g(1)]
  show ?thesis
  proof (cases "d \<in> depends_on_ids (obj m r)")
    case True
    with g show ?thesis by (simp add: add_dependency_def)
  next
    case False
    with ok g have nc: "\<not> check_circular_dependency m t d {}"
      by (auto simp: add_dependency_def split: if_splits)
    with False g l(3) show ?thesis
      by (simp add: add_dependency_def obj_set_obj)
  qed
qed

section \<open>Outcomes of add_dependency\<close>

text \<open>
  C6, as the code decides it. \<open>add_dependency\<close> looks both ids up before it compares
  them: with an unknown id it fails with the not-found message even when the two ids
  are equal.
\<close>

theorem add_dependency_equal_ids_counterexample:
  "add_dependency example_abc ''X'' ''X'' = (False, [TaskNotFound ''X''], example_abc) \<and>
   fst (snd (add_dependency example_abc ''X'' ''X'')) \<noteq> [SelfDependency]"
  by (simp add: add_dependency_def example_abc_def example_defs)

text \<open>
  C6 (amended). In a consistent registry \<open>add_dependency\<close> fails with not-found when
  the task id, or else the dependency id, resolves to no live task; otherwise fails
  with the self-dependency message when the ids are equal; otherwise succeeds without
  change when the edge exists; otherwise fails with the cycle message when the task is
  reachable from the dependency; otherwise succeeds and adds exactly that edge. A
  successful call repeated succeeds again as a no-op on the manager it produced.
\<close>

theorem add_dependency_outcomes:
  "consistent m \<Longrightarrow>
    (get_task_by_id m t = None \<longrightarrow> add_dependency m t d = (False, [TaskNotFound t], m)) \<and>
    (get_task_by_id m t \<noteq> None \<and> get_task_by_id m d = None \<longrightarrow>
       add_dependency m t d = (False, [DependencyTaskNotFound d], m)) \<and>
    (get_task_by_id m t \<noteq> None \<and> t = d \<longrightarrow> add_dependency m t d = (False, [SelfDependency], m)) \<and>
    (get_task_by_id m t = Some r \<and> get_task_by_id m d \<noteq> None \<and> t \<noteq> d \<longrightarrow>
       (if (t, d) \<in> edges m then add_dependency m t d = (True, [AlreadyDependsOn t d], m)
        else if (d, t) \<in> (edges m)\<^sup>* then add_dependency m t d = (False, [WouldCreateCycle t d], m)
        else add_dependency m t d =
               (True, [DependencyAdded d t],
                set_obj m r ((obj m r)\<lparr>depends_on_ids := insert d (depends_on_ids (obj m r))\<rparr>)) \<and>
             edges (snd (snd (add_dependency m t d))) = insert (t, d) (edges m))) \<and>
    (fst (add_dependency m t d) \<longrightarrow>
       add_dependency (snd (snd (add_dependency m t d))) t d =
         (True, [AlreadyDependsOn t d], snd (snd (add_dependency m t d))))"
proof (intro conjI impI)
  assume c: "consistent m"
  show "fst (add_dependency m t d) \<Longrightarrow>
       add_dependency (snd (snd (add_dependency m t d))) t d =
         (True, [AlreadyDependsOn t d], snd (snd (add_dependency m t d)))"
    by (rule add_dependency_twice[OF c])
  show "get_task_by_id m t = None \<Longrightarrow> add_dependency m t d = (False, [TaskNotFound t], m)"
    by (simp add: add_dependency_def)
  show "get_task_by_id m t \<noteq> None \<and> get_task_by_id m d = None \<Longrightarrow>
       add_dependency m t d = (False, [DependencyTaskNotFound d], m)"
    by (auto simp: add_dependency_def)
  show "get_task_by_id m t \<noteq> None \<and> t = d \<Longrightarrow> add_dependency m t d = (False, [SelfDependency], m)"
    by (auto simp: add_dependency_def)
  assume g: "get_task_by_id m t = Some r \<and> get_task_by_id m d \<noteq> None \<and> t \<noteq> d"
  then have e: "(t, d) \<in> edges m \<longleftrightarrow> d \<in> depends_on_ids (obj m r)"
    by (simp add: edges_of_task[OF c])
  from g have reach: "(d, t) \<in> (edges m)\<^sup>* \<longleftrightarrow> check_circular_dependency m t d {}"
    by (auto simp: rtrancl_eq_or_trancl check_iff_reachable consistent_edges[OF c])
  from g show "if (t, d) \<in> edges m then add_dependency m t d = (True, [AlreadyDependsOn t d], m)
        else if (d, t) \<in> (edges m)\<^sup>* then add_dependency m t d = (False, [WouldCreateCycle t d], m)
        else add_dependency m t d =
               (True, [DependencyAdded d t],
                set_obj m r ((obj m r)\<lparr>depends_on_ids := insert d (depends_on_ids (obj m r))\<rparr>)) \<and>
             edges (snd (snd (add_dependency m t d))) = insert (t, d) (edges m)"
    unfolding e reach by (auto simp: add_dependency_def edges_insert_dep[OF c])
qed

theorem add_dependency_outcomes_witness:
  "consistent example_abc \<and>
   get_task_by_id example_abc ''X'' = None \<and>
   add_dependency example_abc ''X'' ''A'' = (False, [TaskNotFound ''X''], example_abc) \<and>
   get_task_by_id example_abc ''A'' \<noteq> None \<and>
   add_dependency example_abc ''A'' ''X'' = (False, [DependencyTaskNotFound ''X''], example_abc) \<and>
   add_dependency example_abc ''A'' ''A'' = (False, [SelfDependency], example_abc) \<and>
   fst (add_dependency example_abc ''A'' ''B'') \<and>
   snd (snd (add_dependency example_abc ''A'' ''B'')) = example_ab \<and>
   add_dependency example_ab ''A'' ''B'' = (True, [AlreadyDependsOn ''A'' ''B''], example_ab) \<and>
   get_task_by_id example_abc ''A'' = Some 0 \<and> get_task_by_id example_abc ''B'' \<noteq> None \<and>
   (''A'', ''B'') \<notin> edges example_abc \<and> (''B'', ''A'') \<notin> (edges example_abc)\<^sup>* \<and>
   edges example_ab = insert (''A'', ''B'') (edges example_abc)"
proof -
  have c: "consistent example_abc"
    by (simp add: example_abc_def consistent_def example_defs)
  note T = add_dependency_outcomes[OF c]
  have g1: "get_task_by_id example_abc ''X'' = None" "get_task_by_id example_abc ''A'' \<noteq> None"
    by (simp_all add: example_abc_def example_defs)
  have r1: "add_dependency example_abc ''X'' ''A'' = (False, [TaskNotFound ''X''], example_abc)"
    using T[THEN conjunct1, rule_format, OF g1(1)] .
  have r2: "add_dependency example_abc ''A'' ''X'' = (False, [DependencyTaskNotFound ''X''], example_abc)"
    using T[THEN conjunct2, THEN conjunct1, rule_format, of "''A''" "''X''"] g1 by simp
  have r3: "add_dependency example_abc ''A'' ''A'' = (False, [SelfDependency], example_abc)"
    using T[THEN conjunct2, THEN conjunct2, THEN conjunct1, rule_format, of "''A''" "''A''"] g1 by simp
  have f: "fst (add_dependency example_abc ''A'' ''B'')"
    "snd (snd (add_dependency example_abc ''A'' ''B'')) = example_ab"
    by (simp_all add: add_dependency_def example_abc_def example_ab_def example_defs check_circular_dependency.simps)
  have r4: "add_dependency example_ab ''A'' ''B'' = (True, [AlreadyDependsOn ''A'' ''B''], example_ab)"
    using T[THEN conjunct2, THEN conjunct2, THEN conjunct2, THEN conjunct2, rule_format, OF f(1)] f(2) by simp
  have e: "edges example_abc = {}"
    by (simp add: example_abc_def edges_def example_defs)
  have g2: "get_task_by_id example_abc ''A'' = Some 0 \<and> get_task_by_id example_abc ''B'' \<noteq> None \<and>
      ''A'' \<noteq> ''B''"
    by (simp add: example_abc_def example_defs)
  have r5: "edges example_ab = insert (''A'', ''B'') (edges example_abc)"
    using T[THEN conjunct2, THEN conjunct2, THEN conjunct2, THEN conjunct1, rule_format, OF g2] f(2)
    by (simp add: e)
  from c g1 r1 r2 r3 f r4 g2 r5 show ?thesis by (simp add: e)
qed

subsection \<open>Creating tasks\<close>

lemma consistent_alt:
  "consistent m \<longleftrightarrow>
     distinct (tasks m) \<and> distinct (map fst (task_map m)) \<and>
     (\<forall>r \<in> set (tasks m). r < length (heap m) \<and> get_task_by_id m (task_id (obj m r)) = Some r) \<and>
     (\<forall>k r. get_task_by_id m k = Some r \<longrightarrow> r \<in> set (tasks m) \<and> task_id (obj m r) = k)"
  unfolding consistent_def get_task_by_id_def by (cases "distinct (map fst (task_map m))") auto

lemma live_ids_iff: "k \<in> live_ids m \<longleftrightarrow> get_task_by_id m k \<noteq> None"
  by (simp add: live_ids_def get_task_by_id_def map_of_eq_None_iff)

lemma validate_deps_None:
  "validate_deps m u ds = None \<longleftrightarrow>
     (\<forall>d \<in> set ds. get_task_by_id m d \<noteq> None \<and> \<not> check_circular_dependency m u d {})"
  by (induction ds) auto

lemma validate_deps_Some:
  "validate_deps m u ds = Some e \<Longrightarrow>
     (\<exists>d \<in> set ds. e = DependencyNotFound d \<and> get_task_by_id m d = None) \<or>
     (\<exists>d \<in> set ds. e = DependencyCycle d \<and> get_task_by_id m d \<noteq> None \<and> check_circular_dependency m u d {})"
  by (induction ds) (auto split: if_splits)

lemma no_incoming_no_cycle:
  assumes c: "consistent m" and f: "\<forall>r \<in> set (tasks m). u \<notin> depends_on_ids (obj m r)"
  shows "\<not> check_circular_dependency m u d {}"
proof
  assume "check_circular_dependency m u d {}"
  then have "(d, u) \<in> (edges m)\<^sup>+" by (simp add: check_iff_reachable consistent_edges[OF c])
  then obtain x where "(x, u) \<in> edges m" by (auto dest: tranclD2)
  with f show False by (auto simp: edges_def)
qed

lemma Task_init_fields:
  assumes "Task_init sp now uuid ttl descr dd prio cat ''Pendente'' (Some uuid) None None q deps ps cs = Inr t"
  shows "task_id t = uuid" "status t = Pendente" "depends_on_ids t = set_or_empty deps" "title t = ttl"
    "completion_date t = None"
  using assms
  by (auto simp: Task_init_def Let_def status_of_str_def split: if_splits option.splits)

lemma Task_init_errors:
  assumes "Task_init sp now uuid ttl descr dd prio cat ''Pendente'' tid cr co q deps ps cs = Inl e"
  shows "e = EmptyTitle \<or> e = InvalidPriority prio \<or> (\<exists>x. q = Some x \<and> e = InvalidQuadrant x) \<or> e = InvalidDateFormat"
  using assms
  by (auto simp: Task_init_def Let_def VALID_STATUSES_def split: if_splits option.splits)

lemma add_task_failure_unchanged:
  "fst (add_task sp now uuid lw m ttl descr dd prio cat q deps ps cs) = Inl e \<Longrightarrow>
   snd (add_task sp now uuid lw m ttl descr dd prio cat q deps ps cs) = m"
  by (auto simp: add_task_def Let_def split: option.splits sum.splits)

lemma add_task_success:
  assumes "fst (add_task sp now uuid lw m ttl descr dd prio cat q deps ps cs) = Inr r"
  shows "\<exists>t. Task_init sp now uuid ttl descr dd prio cat ''Pendente'' (Some uuid) None None q deps
               (normalized_tags lw ps) (normalized_tags lw cs) = Inr t \<and>
             r = length (heap m) \<and>
             snd (add_task sp now uuid lw m ttl descr dd prio cat q deps ps cs) =
               \<lparr> heap = heap m @ [t], tasks = tasks m @ [r], task_map = AList.update uuid r (task_map m) \<rparr> \<and>
             (\<forall>d \<in> set_or_empty deps. get_task_by_id m d \<noteq> None \<and> \<not> check_circular_dependency m uuid d {})"
proof -
  from assms have v: "(case deps of None \<Rightarrow> None | Some ds \<Rightarrow> validate_deps m uuid ds) = None"
    by (auto simp: add_task_def Let_def split: option.splits sum.splits)
  then have ok: "\<forall>d \<in> set_or_empty deps. get_task_by_id m d \<noteq> None \<and> \<not> check_circular_dependency m uuid d {}"
    by (auto simp: set_or_empty_def validate_deps_None split: option.splits)
  from assms v obtain t where t: "Task_init sp now uuid ttl descr dd prio cat ''Pendente'' (Some uuid) None None q deps
               (normalized_tags lw ps) (normalized_tags lw cs) = Inr t"
    by (auto simp: add_task_def Let_def split: option.splits sum.splits)
  from Task_init_fields(1)[OF t] assms v t ok show ?thesis
    by (auto simp: add_task_def Let_def)
qed

lemma add_task_consistent:
  assumes c: "consistent m" and f: "uuid \<notin> live_ids m"
  shows "consistent (snd (add_task sp now uuid lw m ttl descr dd prio cat q deps ps cs))"
proof (cases "fst (add_task sp now uuid lw m ttl descr dd prio cat q deps ps cs)")
  case (Inl e)
  with c show ?thesis by (simp add: add_task_failure_unchanged)
next
  case (Inr r)
  from add_task_success[OF Inr] obtain t where
    t: "Task_init sp now uuid ttl descr dd prio cat ''Pendente'' (Some uuid) None None q deps
               (normalized_tags lw ps) (normalized_tags lw cs) = Inr t"
    and r: "r = length (heap m)"
    and m': "snd (add_task sp now uuid lw m ttl descr dd prio cat q deps ps cs) =
               \<lparr> heap = heap m @ [t], tasks = tasks m @ [r], task_map = AList.update uuid r (task_map m) \<rparr>"
    by blast
  let ?m' = "\<lparr> heap = heap m @ [t], tasks = tasks m @ [r], task_map = AList.update uuid r (task_map m) \<rparr>"
  note ca = c[unfolded consistent_alt]
  have g: "get_task_by_id ?m' k = (if k = uuid then Some r else get_task_by_id m k)" for k
    by (simp add: get_task_by_id_def update_conv')
  have old: "obj ?m' x = obj m x" if "x < length (heap m)" for x
    using that by (simp add: obj_def nth_append)
  have new: "obj ?m' r = t" by (simp add: obj_def r)
  have lt: "x < length (heap m)" if "x \<in> set (tasks m)" for x using ca that by blast
  have nid: "task_id (obj m x) \<noteq> uuid" if "x \<in> set (tasks m)" for x
    using consistent_listed[OF c that] f by (auto simp: live_ids_iff)
  have "consistent ?m'"
    unfolding consistent_alt
  proof (intro conjI ballI allI impI)
    show "distinct (tasks ?m')" using ca lt r by auto
    show "distinct (map fst (task_map ?m'))" using ca by (simp add: distinct_update)
  next
    fix x assume "x \<in> set (tasks ?m')"
    then consider "x \<in> set (tasks m)" | "x = r" by auto
    then have "x < length (heap ?m') \<and> get_task_by_id ?m' (task_id (obj ?m' x)) = Some x"
    proof cases
      case 1
      from lt[OF 1] have "x < length (heap ?m')" by simp
      moreover from 1 have "get_task_by_id ?m' (task_id (obj ?m' x)) = Some x"
        using old[OF lt[OF 1]] nid[OF 1] consistent_listed[OF c 1] by (simp add: g)
      ultimately show ?thesis by simp
    next
      case 2
      then have "x < length (heap ?m')" by (simp add: r)
      moreover from 2 have "get_task_by_id ?m' (task_id (obj ?m' x)) = Some x"
        using new Task_init_fields(1)[OF t] by (simp add: g)
      ultimately show ?thesis by simp
    qed
    then show "x < length (heap ?m')" "get_task_by_id ?m' (task_id (obj ?m' x)) = Some x" by simp_all
  next
    fix k x assume a: "get_task_by_id ?m' k = Some x"
    show "x \<in> set (tasks ?m')" "task_id (obj ?m' x) = k"
    proof -
      show "x \<in> set (tasks ?m')" using a consistent_lookup(1)[OF c, of k x] by (auto simp: g split: if_splits)
      show "task_id (obj ?m' x) = k"
      proof (cases "k = uuid")
        case True
        with a new Task_init_fields(1)[OF t] show ?thesis by (simp add: g)
      next
        case False
        with a have "get_task_by_id m k = Some x" by (simp add: g)
        from consistent_lookup[OF c this] old show ?thesis by simp
      qed
    qed
  qed
  with m' show ?thesis by simp
qed

section \<open>Creating a task with dependencies\<close>

text \<open>
  C4. \<open>add_task\<close> generates the id first and validates the requested dependency ids
  against it in their order: the first id that is unknown makes it fail with the
  not-found error, the first known id whose cycle check is positive with the cycle
  error (so an unknown id always makes the call fail, and with not-found whenever no
  cycle check is positive). A failed call, whether on a dependency or on a field,
  leaves the manager as it was. A successful call has validated every id and appends
  the new task to the list and enters it in the id dictionary, leaving the other
  tasks and entries alone; with an unused id the registry stays consistent.
\<close>

theorem add_task_validate_then_insert:
  "res = add_task sp now uuid lw m ttl descr dd prio cat q deps ps cs \<Longrightarrow>
    (fst res = Inl e \<longrightarrow> snd res = m) \<and>
    (deps = Some ds \<and> (\<exists>d \<in> set ds. get_task_by_id m d = None \<or> check_circular_dependency m uuid d {}) \<longrightarrow>
       (\<exists>d \<in> set ds. (get_task_by_id m d = None \<and> fst res = Inl (DependencyNotFound d)) \<or>
                      (get_task_by_id m d \<noteq> None \<and> check_circular_dependency m uuid d {} \<and>
                       fst res = Inl (DependencyCycle d)))) \<and>
    (deps = Some ds \<and> (\<exists>d \<in> set ds. get_task_by_id m d = None) \<and>
       (\<forall>d \<in> set ds. \<not> check_circular_dependency m uuid d {}) \<longrightarrow>
       (\<exists>d \<in> set ds. get_task_by_id m d = None \<and> fst res = Inl (DependencyNotFound d))) \<and>
    (deps = Some ds \<and> (\<forall>d \<in> set ds. get_task_by_id m d \<noteq> None) \<and>
       (\<exists>d \<in> set ds. check_circular_dependency m uuid d {}) \<longrightarrow>
       (\<exists>d \<in> set ds. check_circular_dependency m uuid d {} \<and> fst res = Inl (DependencyCycle d))) \<and>
    (fst res = Inr r \<longrightarrow>
       (\<forall>d \<in> set_or_empty deps. get_task_by_id m d \<noteq> None \<and> \<not> check_circular_dependency m uuid d {}) \<and>
       r = length (heap m) \<and> tasks (snd res) = tasks m @ [r] \<and>
       get_task_by_id (snd res) uuid = Some r \<and>
       (\<forall>k. k \<noteq> uuid \<longrightarrow> get_task_by_id (snd res) k = get_task_by_id m k) \<and>
       (\<forall>x < length (heap m). obj (snd res) x = obj m x) \<and>
       task_id (obj (snd res) r) = uuid \<and> status (obj (snd res) r) = Pendente \<and>
       depends_on_ids (obj (snd res) r) = set_or_empty deps) \<and>
    (consistent m \<and> uuid \<notin> live_ids m \<longrightarrow> consistent (snd res))"
proof (intro conjI impI)
  assume res: "res = add_task sp now uuid lw m ttl descr dd prio cat q deps ps cs"
  show "fst res = Inl e \<Longrightarrow> snd res = m"
    unfolding res by (rule add_task_failure_unchanged)
  show "consistent m \<and> uuid \<notin> live_ids m \<Longrightarrow> consistent (snd res)"
    unfolding res by (simp add: add_task_consistent)
  {
    assume a: "deps = Some ds \<and> (\<exists>d \<in> set ds. get_task_by_id m d = None \<or> check_circular_dependency m uuid d {})"
    then have "validate_deps m uuid ds \<noteq> None" by (auto simp: validate_deps_None)
    then obtain e' where e': "validate_deps m uuid ds = Some e'" by auto
    with a have "fst res = Inl e'" by (simp add: res add_task_def)
    with validate_deps_Some[OF e']
    show "\<exists>d \<in> set ds. (get_task_by_id m d = None \<and> fst res = Inl (DependencyNotFound d)) \<or>
                      (get_task_by_id m d \<noteq> None \<and> check_circular_dependency m uuid d {} \<and>
                       fst res = Inl (DependencyCycle d))" by auto
  } note first = this
  {
    assume a: "deps = Some ds \<and> (\<exists>d \<in> set ds. get_task_by_id m d = None) \<and>
       (\<forall>d \<in> set ds. \<not> check_circular_dependency m uuid d {})"
    then have "deps = Some ds \<and> (\<exists>d \<in> set ds. get_task_by_id m d = None \<or> check_circular_dependency m uuid d {})"
      by blast
    from first[OF this] a
    show "\<exists>d \<in> set ds. get_task_by_id m d = None \<and> fst res = Inl (DependencyNotFound d)" by blast
  }
  {
    assume a: "deps = Some ds \<and> (\<forall>d \<in> set ds. get_task_by_id m d \<noteq> None) \<and>
       (\<exists>d \<in> set ds. check_circular_dependency m uuid d {})"
    then have "deps = Some ds \<and> (\<exists>d \<in> set ds. get_task_by_id m d = None \<or> check_circular_dependency m uuid d {})"
      by blast
    from first[OF this] a
    show "\<exists>d \<in> set ds. check_circular_dependency m uuid d {} \<and> fst res = Inl (DependencyCycle d)" by blast
  }
  assume "fst res = Inr r"
  then have ok: "fst (add_task sp now uuid lw m ttl descr dd prio cat q deps ps cs) = Inr r" by (simp add: res)
  from add_task_success[OF ok] obtain t where
    t: "Task_init sp now uuid ttl descr dd prio cat ''Pendente'' (Some uuid) None None q deps
               (normalized_tags lw ps) (normalized_tags lw cs) = Inr t"
    and r: "r = length (heap m)"
    and m': "snd res = \<lparr> heap = heap m @ [t], tasks = tasks m @ [r], task_map = AList.update uuid r (task_map m) \<rparr>"
    and v: "\<forall>d \<in> set_or_empty deps. get_task_by_id m d \<noteq> None \<and> \<not> check_circular_dependency m uuid d {}"
    unfolding res by blast
  note tf = Task_init_fields[OF t]
  show "\<forall>d \<in> set_or_empty deps. get_task_by_id m d \<noteq> None \<and> \<not> check_circular_dependency m uuid d {}"
    by (rule v)
  show "r = length (heap m)" by (rule r)
  show "tasks (snd res) = tasks m @ [r]" by (simp add: m')
  show "get_task_by_id (snd res) uuid = Some r" by (simp add: m' get_task_by_id_def update_conv')
  show "\<forall>k. k \<noteq> uuid \<longrightarrow> get_task_by_id (snd res) k = get_task_by_id m k"
    by (simp add: m' get_task_by_id_def update_conv')
  show "\<forall>x < length (heap m). obj (snd res) x = obj m x" by (simp add: m' obj_def nth_append)
  show "task_id (obj (snd res) r) = uuid" "status (obj (snd res) r) = Pendente"
    "depends_on_ids (obj (snd res) r) = set_or_empty deps"
    using tf by (simp_all add: m' obj_def r)
qed


theorem add_task_validate_then_insert_witness:
  "get_task_by_id example_abc ''Z'' = None \<and>
   fst (add_task (\<lambda>s. None) 5 ''N'' ascii_lower example_abc ''T'' [] None ''Alta'' ''Geral'' None (Some [''A'', ''Z'']) None None)
     = Inl (DependencyNotFound ''Z'') \<and>
   snd (add_task (\<lambda>s. None) 5 ''N'' ascii_lower example_abc ''T'' [] None ''Alta'' ''Geral'' None (Some [''A'', ''Z'']) None None)
     = example_abc \<and>
   fst (add_task (\<lambda>s. None) 5 ''N'' ascii_lower example_abc ''T'' [] None ''Alta'' ''Geral'' None (Some [''A'']) None None)
     = Inr 3 \<and>
   tasks (snd (add_task (\<lambda>s. None) 5 ''N'' ascii_lower example_abc ''T'' [] None ''Alta'' ''Geral'' None (Some [''A'']) None None))
     = [0, 1, 2, 3] \<and>
   get_task_by_id (snd (add_task (\<lambda>s. None) 5 ''N'' ascii_lower example_abc ''T'' [] None ''Alta'' ''Geral'' None (Some [''A'']) None None)) ''N''
     = Some 3 \<and>
   consistent example_abc \<and> ''N'' \<notin> live_ids example_abc \<and>
   consistent (snd (add_task (\<lambda>s. None) 5 ''N'' ascii_lower example_abc ''T'' [] None ''Alta'' ''Geral'' None (Some [''A'']) None None))"
proof -
  let ?r1 = "add_task (\<lambda>s. None) 5 ''N'' ascii_lower example_abc ''T'' [] None ''Alta'' ''Geral'' None (Some [''A'', ''Z'']) None None"
  let ?r2 = "add_task (\<lambda>s. None) 5 ''N'' ascii_lower example_abc ''T'' [] None ''Alta'' ''Geral'' None (Some [''A'']) None None"
  note T1 = add_task_validate_then_insert[of ?r1, OF refl]
  note T2 = add_task_validate_then_insert[of ?r2, OF refl]
  have g: "get_task_by_id example_abc ''A'' \<noteq> None" "get_task_by_id example_abc ''Z'' = None"
    by (simp_all add: example_abc_def example_defs)
  have n: "\<not> check_circular_dependency example_abc ''N'' ''A'' {}"
    by (simp add: example_abc_def example_defs check_circular_dependency.simps)
  from g n have f1: "fst ?r1 = Inl (DependencyNotFound ''Z'')"
    by (simp add: add_task_def)
  have u1: "snd ?r1 = example_abc"
    using T1[THEN conjunct1, rule_format, OF f1] .
  from g n have f2: "fst ?r2 = Inr 3"
    by (simp add: add_task_def Task_init_def VALID_PRIORITIES_def VALID_STATUSES_def Let_def
          example_abc_def manager_init_def)
  note S = T2[THEN conjunct2, THEN conjunct2, THEN conjunct2, THEN conjunct2, THEN conjunct1, rule_format, OF f2]
  have l: "tasks (snd ?r2) = [0, 1, 2, 3]"
    using S by (simp add: example_abc_def example_defs)
  have k: "get_task_by_id (snd ?r2) ''N'' = Some 3" using S by simp
  have c: "consistent example_abc"
    by (simp add: example_abc_def consistent_def example_defs)
  have fr: "''N'' \<notin> live_ids example_abc"
    by (simp add: example_abc_def live_ids_def example_defs)
  have c2: "consistent (snd ?r2)"
    using T2[THEN conjunct2, THEN conjunct2, THEN conjunct2, THEN conjunct2, THEN conjunct2, rule_format] c fr
    by simp
  from g f1 u1 f2 l k c fr c2 show ?thesis by simp
qed


section \<open>A fresh id cannot close a cycle\<close>

text \<open>
  C10. In a consistent registry in which no task lists the generated id among its
  dependencies, the cycle check against that id is negative for every dependency id,
  so \<open>add_task\<close> never raises the cycle error: it can fail only on an unknown
  dependency id or on the validation of a field by the constructor.
\<close>

theorem add_task_fresh_id_no_cycle_error:
  "consistent m \<Longrightarrow> \<forall>r \<in> set (tasks m). uuid \<notin> depends_on_ids (obj m r) \<Longrightarrow>
    (\<forall>d. \<not> check_circular_dependency m uuid d {}) \<and>
    (\<forall>e. fst (add_task sp now uuid lw m ttl descr dd prio cat q deps ps cs) = Inl e \<longrightarrow>
       (\<exists>d \<in> set_or_empty deps. e = DependencyNotFound d \<and> get_task_by_id m d = None) \<or>
       e = EmptyTitle \<or> e = InvalidPriority prio \<or> (\<exists>x. q = Some x \<and> e = InvalidQuadrant x) \<or>
       e = InvalidDateFormat)"
proof (intro conjI allI impI)
  assume c: "consistent m" and f: "\<forall>r \<in> set (tasks m). uuid \<notin> depends_on_ids (obj m r)"
  show nc: "\<not> check_circular_dependency m uuid d {}" for d
    using c f by (rule no_incoming_no_cycle)
  fix e assume e: "fst (add_task sp now uuid lw m ttl descr dd prio cat q deps ps cs) = Inl e"
  show "(\<exists>d \<in> set_or_empty deps. e = DependencyNotFound d \<and> get_task_by_id m d = None) \<or>
       e = EmptyTitle \<or> e = InvalidPriority prio \<or> (\<exists>x. q = Some x \<and> e = InvalidQuadrant x) \<or>
       e = InvalidDateFormat"
  proof (cases "case deps of None \<Rightarrow> None | Some ds \<Rightarrow> validate_deps m uuid ds")
    case None
    with e have "Task_init sp now uuid ttl descr dd prio cat ''Pendente'' (Some uuid) None None q deps
               (normalized_tags lw ps) (normalized_tags lw cs) = Inl e"
      by (auto simp: add_task_def Let_def split: sum.splits)
    from Task_init_errors[OF this] show ?thesis by blast
  next
    case (Some e')
    with e have "e' = e" by (simp add: add_task_def)
    with Some obtain ds where ds: "deps = Some ds" "validate_deps m uuid ds = Some e"
      by (auto split: option.splits)
    from validate_deps_Some[OF ds(2)] nc ds(1) show ?thesis
      by (auto simp: set_or_empty_def)
  qed
qed

theorem add_task_fresh_id_no_cycle_error_witness:
  "consistent example_abc \<and> tasks example_abc = [0, 1, 2] \<and>
   ''N'' \<notin> depends_on_ids (obj example_abc 0) \<and> ''N'' \<notin> depends_on_ids (obj example_abc 1) \<and>
   ''N'' \<notin> depends_on_ids (obj example_abc 2) \<and>
   \<not> check_circular_dependency example_abc ''N'' ''A'' {} \<and>
   fst (add_task (\<lambda>s. None) 5 ''N'' ascii_lower example_abc ''T'' [] None ''Alta'' ''Geral'' None (Some [''A'', ''Z'']) None None)
     = Inl (DependencyNotFound ''Z'') \<and>
   get_task_by_id example_abc ''Z'' = None"
proof -
  have c: "consistent example_abc"
    by (simp add: example_abc_def consistent_def example_defs)
  have f: "\<forall>r \<in> set (tasks example_abc). ''N'' \<notin> depends_on_ids (obj example_abc r)"
    by (simp add: example_abc_def example_defs)
  note T = add_task_fresh_id_no_cycle_error[OF c f]
  have n: "\<not> check_circular_dependency example_abc ''N'' ''A'' {}"
    using T[THEN conjunct1] by blast
  have g: "get_task_by_id example_abc ''A'' \<noteq> None" "get_task_by_id example_abc ''Z'' = None"
    by (simp_all add: example_abc_def example_defs)
  with n have r: "fst (add_task (\<lambda>s. None) 5 ''N'' ascii_lower example_abc ''T'' [] None ''Alta'' ''Geral'' None (Some [''A'', ''Z'']) None None)
     = Inl (DependencyNotFound ''Z'')"
    by (simp add: add_task_def)
  have l: "tasks example_abc = [0, 1, 2]" "''N'' \<notin> depends_on_ids (obj example_abc 0)"
    "''N'' \<notin> depends_on_ids (obj example_abc 1)" "''N'' \<notin> depends_on_ids (obj example_abc 2)"
    by (simp_all add: example_abc_def example_defs)
  from T[THEN conjunct2, rule_format, OF r] c l n r g show ?thesis by simp
qed

subsection \<open>Deletion keeps the registry consistent\<close>

lemma delete_task_consistent:
  assumes c: "consistent m"
  shows "consistent (snd (snd (delete_task m tid)))"
proof (cases "fst (delete_task m tid)")
  case False
  then have "snd (snd (delete_task m tid)) = m"
    by (auto simp: delete_task_def Let_def split: option.splits if_splits)
  with c show ?thesis by simp
next
  case True
  then obtain r where g: "get_task_by_id m tid = Some r"
    and m': "snd (snd (delete_task m tid)) =
               m\<lparr>tasks := remove1 r (tasks m), task_map := AList.delete tid (task_map m)\<rparr>"
    by (auto simp: delete_task_def Let_def split: option.splits if_splits)
  let ?m' = "m\<lparr>tasks := remove1 r (tasks m), task_map := AList.delete tid (task_map m)\<rparr>"
  note ca = c[unfolded consistent_alt]
  have gd: "get_task_by_id ?m' k = (if k = tid then None else get_task_by_id m k)" for k
    by (simp add: get_task_by_id_def delete_conv')
  have o: "obj ?m' x = obj m x" for x by (simp add: obj_def)
  have st: "set (tasks ?m') = set (tasks m) - {r}" using ca by simp
  have "consistent ?m'"
    unfolding consistent_alt
  proof (intro conjI ballI allI impI)
    show "distinct (tasks ?m')" using ca by simp
    show "distinct (map fst (task_map ?m'))" using ca by (simp add: distinct_delete)
  next
    fix x assume x: "x \<in> set (tasks ?m')"
    then have xm: "x \<in> set (tasks m)" "x \<noteq> r" using st by auto
    from xm ca show "x < length (heap ?m')" by simp
    from consistent_listed[OF c xm(1)] g xm(2) have "task_id (obj m x) \<noteq> tid" by auto
    with consistent_listed[OF c xm(1)] show "get_task_by_id ?m' (task_id (obj ?m' x)) = Some x"
      by (simp add: gd o)
  next
    fix k x assume "get_task_by_id ?m' k = Some x"
    then have k: "k \<noteq> tid" "get_task_by_id m k = Some x" by (auto simp: gd split: if_splits)
    note l = consistent_lookup[OF c k(2)]
    from l(2) k(1) consistent_lookup(2)[OF c g] have "x \<noteq> r" by auto
    with l(1) show "x \<in> set (tasks ?m')" using st by simp
    from l(2) show "task_id (obj ?m' x) = k" by (simp add: o)
  qed
  with m' show ?thesis by simp
qed

section \<open>Deleting a task\<close>

text \<open>
  C5. \<open>delete_task\<close> fails with the not-found message when the id resolves to no live
  task; fails, with the manager unchanged, carrying the ids of all listed tasks whose
  \<open>depends_on_ids\<close> contain the id when there is any; and otherwise succeeds, removing
  the task from the task list and its id from the dictionary and leaving every other
  entry alone. A consistent registry stays consistent.
\<close>

theorem delete_task_outcomes:
  "(get_task_by_id m tid = None \<longrightarrow> delete_task m tid = (False, [TaskNotFound tid], m)) \<and>
   (get_task_by_id m tid = Some r \<longrightarrow>
      (if \<exists>q \<in> set (tasks m). tid \<in> depends_on_ids (obj m q)
       then \<exists>blocking. delete_task m tid = (False, [HasDependents tid blocking], m) \<and>
              set blocking = {task_id (obj m q) |q. q \<in> set (tasks m) \<and> tid \<in> depends_on_ids (obj m q)}
       else fst (delete_task m tid) \<and>
            tasks (snd (snd (delete_task m tid))) = remove1 r (tasks m) \<and>
            heap (snd (snd (delete_task m tid))) = heap m \<and>
            get_task_by_id (snd (snd (delete_task m tid))) tid = None \<and>
            (\<forall>k. k \<noteq> tid \<longrightarrow> get_task_by_id (snd (snd (delete_task m tid))) k = get_task_by_id m k) \<and>
            (consistent m \<longrightarrow> r \<notin> set (tasks (snd (snd (delete_task m tid))))))) \<and>
   (consistent m \<longrightarrow> consistent (snd (snd (delete_task m tid))))"
proof (intro conjI impI)
  show "get_task_by_id m tid = None \<Longrightarrow> delete_task m tid = (False, [TaskNotFound tid], m)"
    by (simp add: delete_task_def)
  show "consistent m \<Longrightarrow> consistent (snd (snd (delete_task m tid)))"
    by (rule delete_task_consistent)
  assume g: "get_task_by_id m tid = Some r"
  let ?bl = "map (\<lambda>q. task_id (obj m q)) (filter (\<lambda>q. tid \<in> depends_on_ids (obj m q)) (tasks m))"
  have ne: "?bl \<noteq> [] \<longleftrightarrow> (\<exists>q \<in> set (tasks m). tid \<in> depends_on_ids (obj m q))"
    by (auto simp: filter_empty_conv)
  show "if \<exists>q \<in> set (tasks m). tid \<in> depends_on_ids (obj m q)
       then \<exists>blocking. delete_task m tid = (False, [HasDependents tid blocking], m) \<and>
              set blocking = {task_id (obj m q) |q. q \<in> set (tasks m) \<and> tid \<in> depends_on_ids (obj m q)}
       else fst (delete_task m tid) \<and>
            tasks (snd (snd (delete_task m tid))) = remove1 r (tasks m) \<and>
            heap (snd (snd (delete_task m tid))) = heap m \<and>
            get_task_by_id (snd (snd (delete_task m tid))) tid = None \<and>
            (\<forall>k. k \<noteq> tid \<longrightarrow> get_task_by_id (snd (snd (delete_task m tid))) k = get_task_by_id m k) \<and>
            (consistent m \<longrightarrow> r \<notin> set (tasks (snd (snd (delete_task m tid)))))"
  proof (cases "\<exists>q \<in> set (tasks m). tid \<in> depends_on_ids (obj m q)")
    case True
    with ne have "?bl \<noteq> []" by simp
    with g have "delete_task m tid = (False, [HasDependents tid ?bl], m)"
      by (simp add: delete_task_def Let_def)
    moreover have "set ?bl = {task_id (obj m q) |q. q \<in> set (tasks m) \<and> tid \<in> depends_on_ids (obj m q)}"
      by auto
    ultimately show ?thesis using True by auto
  next
    case False
    with ne have e: "?bl = []" by simp
    with g have d: "delete_task m tid =
        (True, [], m\<lparr>tasks := remove1 r (tasks m), task_map := AList.delete tid (task_map m)\<rparr>)"
      by (simp add: delete_task_def Let_def)
    have "consistent m \<Longrightarrow> r \<notin> set (remove1 r (tasks m))"
      by (simp add: consistent_def)
    with False d show ?thesis
      by (simp add: get_task_by_id_def delete_conv')
  qed
qed

theorem delete_task_outcomes_witness:
  "get_task_by_id example_ab ''X'' = None \<and>
   delete_task example_ab ''X'' = (False, [TaskNotFound ''X''], example_ab) \<and>
   get_task_by_id example_ab ''B'' = Some 1 \<and>
   (\<exists>q \<in> set (tasks example_ab). ''B'' \<in> depends_on_ids (obj example_ab q)) \<and>
   delete_task example_ab ''B'' = (False, [HasDependents ''B'' [''A'']], example_ab) \<and>
   get_task_by_id example_ab ''C'' = Some 2 \<and>
   \<not> (\<exists>q \<in> set (tasks example_ab). ''C'' \<in> depends_on_ids (obj example_ab q)) \<and>
   fst (delete_task example_ab ''C'') \<and>
   tasks (snd (snd (delete_task example_ab ''C''))) = [0, 1] \<and>
   get_task_by_id (snd (snd (delete_task example_ab ''C''))) ''C'' = None \<and>
   consistent example_ab \<and> consistent (snd (snd (delete_task example_ab ''C'')))"
proof -
  note T = delete_task_outcomes[of example_ab]
  have g: "get_task_by_id example_ab ''X'' = None" "get_task_by_id example_ab ''B'' = Some 1"
    "get_task_by_id example_ab ''C'' = Some 2"
    by (simp_all add: example_ab_def example_defs)
  have b: "\<exists>q \<in> set (tasks example_ab). ''B'' \<in> depends_on_ids (obj example_ab q)"
    "\<not> (\<exists>q \<in> set (tasks example_ab). ''C'' \<in> depends_on_ids (obj example_ab q))"
    by (simp_all add: example_ab_def example_defs)
  have c: "consistent example_ab"
    by (simp add: example_ab_def consistent_def example_defs)
  have r1: "delete_task example_ab ''X'' = (False, [TaskNotFound ''X''], example_ab)"
    using T[THEN conjunct1, rule_format, OF g(1)] .
  from T[THEN conjunct2, THEN conjunct1, rule_format, OF g(2)] b(1)
  obtain bl where bl: "delete_task example_ab ''B'' = (False, [HasDependents ''B'' bl], example_ab)"
    by auto
  have r2: "delete_task example_ab ''B'' = (False, [HasDependents ''B'' [''A'']], example_ab)"
    by (simp add: delete_task_def example_ab_def example_defs)
  from T[THEN conjunct2, THEN conjunct1, rule_format, OF g(3)] b(2)
  have r3: "fst (delete_task example_ab ''C'')"
    "tasks (snd (snd (delete_task example_ab ''C''))) = remove1 2 (tasks example_ab)"
    "get_task_by_id (snd (snd (delete_task example_ab ''C''))) ''C'' = None"
    by simp_all
  from r3(2) have r4: "tasks (snd (snd (delete_task example_ab ''C''))) = [0, 1]"
    by (simp add: example_ab_def example_defs)
  have r5: "consistent (snd (snd (delete_task example_ab ''C'')))"
    using T[THEN conjunct2, THEN conjunct2, rule_format, OF c] .
  from g b c r1 r2 r3 r4 r5 show ?thesis by simp
qed

subsection \<open>The completion check\<close>

lemma set_obj_same: "r < length (heap m) \<Longrightarrow> set_obj m r (obj m r) = m"
  by (simp add: set_obj_def obj_def)

lemma pending_deps_image:
  "(\<lambda>d. (title (obj m (the (get_task_by_id m d))), d)) ` Set.filter (is_pending_dep m) D =
     {(title (obj m q), d) |d q. d \<in> D \<and> get_task_by_id m d = Some q \<and> status (obj m q) = Pendente}"
  by (auto simp: is_pending_dep_def image_iff split: option.splits)

lemma pending_deps_empty:
  "Set.filter (is_pending_dep m) D = {} \<longleftrightarrow>
     (\<forall>d \<in> D. \<forall>q. get_task_by_id m d = Some q \<longrightarrow> status (obj m q) = Concluida)"
proof -
  have "status t \<noteq> Pendente \<longleftrightarrow> status t = Concluida" for t :: task by (cases "status t") auto
  then show ?thesis
    by (auto simp: is_pending_dep_def split: option.splits)
qed

lemma can_complete_task_live:
  assumes g: "get_task_by_id m tid = Some r" and r: "r < length (heap m)"
  shows "can_complete_task m tid =
    (Set.filter (is_pending_dep m) (depends_on_ids (obj m r)) = {},
     (if Set.filter (\<lambda>d. get_task_by_id m d = None) (depends_on_ids (obj m r)) \<noteq> {}
      then [MissingDependenciesRemoved tid (Set.filter (\<lambda>d. get_task_by_id m d = None) (depends_on_ids (obj m r)))]
      else []) @
     (if Set.filter (is_pending_dep m) (depends_on_ids (obj m r)) \<noteq> {}
      then [PendingDependencies tid
              ((\<lambda>d. (title (obj m (the (get_task_by_id m d))), d)) `
                 Set.filter (is_pending_dep m) (depends_on_ids (obj m r)))]
      else []),
     set_obj m r ((obj m r)\<lparr>depends_on_ids :=
        depends_on_ids (obj m r) - Set.filter (\<lambda>d. get_task_by_id m d = None) (depends_on_ids (obj m r))\<rparr>))"
proof (cases "Set.filter (\<lambda>d. get_task_by_id m d = None) (depends_on_ids (obj m r)) = {}")
  case True
  have "set_obj m r ((obj m r)\<lparr>depends_on_ids :=
        depends_on_ids (obj m r) - Set.filter (\<lambda>d. get_task_by_id m d = None) (depends_on_ids (obj m r))\<rparr>) = m"
    unfolding True using r by (simp add: set_obj_same)
  with True g show ?thesis
    by (cases "depends_on_ids (obj m r) = {}") (simp_all add: can_complete_task_def Let_def)
next
  case False
  then have "depends_on_ids (obj m r) \<noteq> {}" by auto
  with False g show ?thesis
    by (simp add: can_complete_task_def Let_def)
qed

section \<open>Completing a task\<close>

text \<open>
  C2. For an id that resolves to a Pendente task, \<open>mark_task_complete\<close> succeeds
  exactly when every id in its \<open>depends_on_ids\<close> that resolves to a live task has
  status Concluida. Otherwise it returns nothing, its last message carries every
  pending dependency (title and id), and the task keeps its status and timestamp. On
  success the task is Concluida with the current time. In both cases the ids that
  resolve to no live task are removed from \<open>depends_on_ids\<close>, and no other task
  object changes.
\<close>

theorem mark_task_complete_gated:
  "consistent m \<Longrightarrow> get_task_by_id m tid = Some r \<Longrightarrow> status (obj m r) = Pendente \<Longrightarrow>
    (fst (mark_task_complete now m tid) = Some r \<longleftrightarrow>
       (\<forall>d \<in> depends_on_ids (obj m r). \<forall>q. get_task_by_id m d = Some q \<longrightarrow> status (obj m q) = Concluida)) \<and>
    (fst (mark_task_complete now m tid) \<noteq> Some r \<longrightarrow>
       fst (mark_task_complete now m tid) = None \<and>
       last (fst (snd (mark_task_complete now m tid))) =
         PendingDependencies tid
           {(title (obj m q), d) |d q. d \<in> depends_on_ids (obj m r) \<and> get_task_by_id m d = Some q \<and>
                                         status (obj m q) = Pendente} \<and>
       status (obj (snd (snd (mark_task_complete now m tid))) r) = Pendente \<and>
       completion_date (obj (snd (snd (mark_task_complete now m tid))) r) = completion_date (obj m r)) \<and>
    (fst (mark_task_complete now m tid) = Some r \<longrightarrow>
       status (obj (snd (snd (mark_task_complete now m tid))) r) = Concluida \<and>
       completion_date (obj (snd (snd (mark_task_complete now m tid))) r) = Some now) \<and>
    depends_on_ids (obj (snd (snd (mark_task_complete now m tid))) r) =
      depends_on_ids (obj m r) - {d. get_task_by_id m d = None} \<and>
    (\<forall>x. x \<noteq> r \<longrightarrow> obj (snd (snd (mark_task_complete now m tid))) x = obj m x)"
proof -
  assume c: "consistent m" and g: "get_task_by_id m tid = Some r" and p: "status (obj m r) = Pendente"
  note r = consistent_lookup(3)[OF c g]
  note cc = can_complete_task_live[OF g r]
  let ?P = "Set.filter (is_pending_dep m) (depends_on_ids (obj m r))"
  have diff: "A - Set.filter P A = A - {a. P a}" "A - {a \<in> A. P a} = A - {a. P a}"
    for A :: "string set" and P by auto
  show ?thesis
  proof (cases "?P = {}")
    case True
    with g p r have "fst (mark_task_complete now m tid) = Some r"
      by (simp add: mark_task_complete_def cc obj_set_obj)
    moreover from True g p r have "status (obj (snd (snd (mark_task_complete now m tid))) r) = Concluida"
      "completion_date (obj (snd (snd (mark_task_complete now m tid))) r) = Some now"
      "depends_on_ids (obj (snd (snd (mark_task_complete now m tid))) r) =
         depends_on_ids (obj m r) - {d. get_task_by_id m d = None}"
      "\<forall>x. x \<noteq> r \<longrightarrow> obj (snd (snd (mark_task_complete now m tid))) x = obj m x"
      by (simp_all add: mark_task_complete_def cc obj_set_obj mark_complete_def diff)
    moreover have "\<forall>d \<in> depends_on_ids (obj m r). \<forall>q. get_task_by_id m d = Some q \<longrightarrow> status (obj m q) = Concluida"
      using True unfolding pending_deps_empty .
    ultimately show ?thesis by simp
  next
    case False
    then have "fst (mark_task_complete now m tid) = None"
      "last (fst (snd (mark_task_complete now m tid))) =
         PendingDependencies tid ((\<lambda>d. (title (obj m (the (get_task_by_id m d))), d)) ` ?P)"
      "status (obj (snd (snd (mark_task_complete now m tid))) r) = status (obj m r)"
      "completion_date (obj (snd (snd (mark_task_complete now m tid))) r) = completion_date (obj m r)"
      "depends_on_ids (obj (snd (snd (mark_task_complete now m tid))) r) =
         depends_on_ids (obj m r) - {d. get_task_by_id m d = None}"
      "\<forall>x. x \<noteq> r \<longrightarrow> obj (snd (snd (mark_task_complete now m tid))) x = obj m x"
      using r by (simp_all add: mark_task_complete_def cc obj_set_obj diff)
    moreover have "\<not> (\<forall>d \<in> depends_on_ids (obj m r). \<forall>q. get_task_by_id m d = Some q \<longrightarrow> status (obj m q) = Concluida)"
      using False unfolding pending_deps_empty .
    ultimately show ?thesis using p unfolding pending_deps_image by simp
  qed
qed


theorem mark_task_complete_gated_witness:
  "consistent example_blocked \<and>
   get_task_by_id example_blocked ''A'' = Some 0 \<and> status (obj example_blocked 0) = Pendente \<and>
   fst (mark_task_complete 9 example_blocked ''A'') = None \<and>
   last (fst (snd (mark_task_complete 9 example_blocked ''A''))) = PendingDependencies ''A'' {(''C'', ''C'')} \<and>
   status (obj (snd (snd (mark_task_complete 9 example_blocked ''A''))) 0) = Pendente \<and>
   depends_on_ids (obj (snd (snd (mark_task_complete 9 example_blocked ''A''))) 0) = {''B'', ''C''} \<and>
   get_task_by_id example_blocked ''C'' = Some 2 \<and> status (obj example_blocked 2) = Pendente \<and>
   fst (mark_task_complete 9 example_blocked ''C'') = Some 2 \<and>
   status (obj (snd (snd (mark_task_complete 9 example_blocked ''C''))) 2) = Concluida \<and>
   completion_date (obj (snd (snd (mark_task_complete 9 example_blocked ''C''))) 2) = Some 9"
proof -
  have c: "consistent example_blocked"
    by (simp add: example_blocked_def consistent_def example_defs)
  have gA: "get_task_by_id example_blocked ''A'' = Some 0" and pA: "status (obj example_blocked 0) = Pendente"
    and gC: "get_task_by_id example_blocked ''C'' = Some 2" and pC: "status (obj example_blocked 2) = Pendente"
    by (simp_all add: example_blocked_def example_defs)
  note TA = mark_task_complete_gated[OF c gA pA, of 9]
  note TC = mark_task_complete_gated[OF c gC pC, of 9]
  have dA: "depends_on_ids (obj example_blocked 0) = {''B'', ''C'', ''Z''}"
    and dC: "depends_on_ids (obj example_blocked 2) = {}"
    by (simp_all add: example_blocked_def example_defs)
  have look: "get_task_by_id example_blocked ''B'' = Some 1" "get_task_by_id example_blocked ''Z'' = None"
    "status (obj example_blocked 1) = Concluida" "title (obj example_blocked 2) = ''C''"
    by (simp_all add: example_blocked_def example_defs)
  have nA: "fst (mark_task_complete 9 example_blocked ''A'') \<noteq> Some 0"
    using TA[THEN conjunct1] gC pC by (simp add: dA)
  note FA = TA[THEN conjunct2, THEN conjunct1, rule_format, OF nA]
  have pend: "{(title (obj example_blocked q), d) |d q. d \<in> depends_on_ids (obj example_blocked 0) \<and>
      get_task_by_id example_blocked d = Some q \<and> status (obj example_blocked q) = Pendente} = {(''C'', ''C'')}"
    using gC pC look by (auto simp: dA)
  have prune: "depends_on_ids (obj example_blocked 0) - {d. get_task_by_id example_blocked d = None} = {''B'', ''C''}"
    using gC look by (auto simp: dA)
  have rA: "depends_on_ids (obj (snd (snd (mark_task_complete 9 example_blocked ''A''))) 0) = {''B'', ''C''}"
    using TA[THEN conjunct2, THEN conjunct2, THEN conjunct2, THEN conjunct1] by (simp only: prune)
  have sC: "fst (mark_task_complete 9 example_blocked ''C'') = Some 2"
    using TC[THEN conjunct1] by (simp add: dC)
  note FC = TC[THEN conjunct2, THEN conjunct2, THEN conjunct1, rule_format, OF sC]
  from c gA pA gC pC FA FC rA sC show ?thesis by (simp add: pend)
qed

section \<open>Reverting a task to pending\<close>

text \<open>
  C3. For an id that resolves to a Concluida task, \<open>mark_task_pending\<close> fails, with
  the manager unchanged and a message carrying every such task, when some listed task
  with status Concluida has the id in its \<open>depends_on_ids\<close>; otherwise it succeeds,
  the task becomes Pendente and its completion timestamp is cleared, and nothing else
  changes. Only direct dependents count, and when the task does not depend on itself
  the call fails exactly when some other task blocks it.
\<close>

theorem mark_task_pending_guard:
  "consistent m \<Longrightarrow> get_task_by_id m tid = Some r \<Longrightarrow> status (obj m r) = Concluida \<Longrightarrow>
    (if \<exists>q \<in> set (tasks m). tid \<in> depends_on_ids (obj m q) \<and> status (obj m q) = Concluida
     then \<exists>blocked. mark_task_pending m tid = (None, [CompletedDependents tid blocked], m) \<and>
            set blocked = {(title (obj m q), task_id (obj m q)) |q.
                             q \<in> set (tasks m) \<and> tid \<in> depends_on_ids (obj m q) \<and> status (obj m q) = Concluida}
     else fst (mark_task_pending m tid) = Some r \<and> fst (snd (mark_task_pending m tid)) = [] \<and>
          status (obj (snd (snd (mark_task_pending m tid))) r) = Pendente \<and>
          completion_date (obj (snd (snd (mark_task_pending m tid))) r) = None \<and>
          (\<forall>x. x \<noteq> r \<longrightarrow> obj (snd (snd (mark_task_pending m tid))) x = obj m x) \<and>
          tasks (snd (snd (mark_task_pending m tid))) = tasks m \<and>
          task_map (snd (snd (mark_task_pending m tid))) = task_map m) \<and>
    (tid \<notin> depends_on_ids (obj m r) \<longrightarrow>
       (fst (mark_task_pending m tid) = None \<longleftrightarrow>
          (\<exists>q \<in> set (tasks m). q \<noteq> r \<and> tid \<in> depends_on_ids (obj m q) \<and> status (obj m q) = Concluida)))"
proof -
  assume c: "consistent m" and g: "get_task_by_id m tid = Some r" and s: "status (obj m r) = Concluida"
  note r = consistent_lookup(3)[OF c g]
  let ?bl = "map (\<lambda>q. (title (obj m q), task_id (obj m q)))
               (filter (\<lambda>q. tid \<in> depends_on_ids (obj m q) \<and> status (obj m q) = Concluida) (tasks m))"
  let ?B = "\<exists>q \<in> set (tasks m). tid \<in> depends_on_ids (obj m q) \<and> status (obj m q) = Concluida"
  have ne: "?bl \<noteq> [] \<longleftrightarrow> ?B" by (auto simp: filter_empty_conv)
  have res: "mark_task_pending m tid =
     (if ?B then (None, [CompletedDependents tid ?bl], m)
      else (Some r, [], set_obj m r (mark_pending (obj m r))))"
    using g s ne by (simp add: mark_task_pending_def Let_def)
  have sb: "set ?bl = {(title (obj m q), task_id (obj m q)) |q.
              q \<in> set (tasks m) \<and> tid \<in> depends_on_ids (obj m q) \<and> status (obj m q) = Concluida}"
    by auto
  have part1: "if ?B
     then \<exists>blocked. mark_task_pending m tid = (None, [CompletedDependents tid blocked], m) \<and>
            set blocked = {(title (obj m q), task_id (obj m q)) |q.
                             q \<in> set (tasks m) \<and> tid \<in> depends_on_ids (obj m q) \<and> status (obj m q) = Concluida}
     else fst (mark_task_pending m tid) = Some r \<and> fst (snd (mark_task_pending m tid)) = [] \<and>
          status (obj (snd (snd (mark_task_pending m tid))) r) = Pendente \<and>
          completion_date (obj (snd (snd (mark_task_pending m tid))) r) = None \<and>
          (\<forall>x. x \<noteq> r \<longrightarrow> obj (snd (snd (mark_task_pending m tid))) x = obj m x) \<and>
          tasks (snd (snd (mark_task_pending m tid))) = tasks m \<and>
          task_map (snd (snd (mark_task_pending m tid))) = task_map m"
  proof (cases ?B)
    case True
    with res sb show ?thesis by auto
  next
    case False
    with res s r show ?thesis by (simp add: obj_set_obj mark_pending_def)
  qed
  have part2: "fst (mark_task_pending m tid) = None \<longleftrightarrow>
          (\<exists>q \<in> set (tasks m). q \<noteq> r \<and> tid \<in> depends_on_ids (obj m q) \<and> status (obj m q) = Concluida)"
    if "tid \<notin> depends_on_ids (obj m r)"
    using that res by auto
  from part1 part2 show ?thesis by blast
qed

theorem mark_task_pending_guard_witness:
  "consistent example_done_chain \<and>
   get_task_by_id example_done_chain ''A'' = Some 0 \<and> status (obj example_done_chain 0) = Concluida \<and>
   ''A'' \<notin> depends_on_ids (obj example_done_chain 0) \<and>
   mark_task_pending example_done_chain ''A'' = (None, [CompletedDependents ''A'' [(''B'', ''B'')]], example_done_chain) \<and>
   get_task_by_id example_done_chain ''B'' = Some 1 \<and> status (obj example_done_chain 1) = Concluida \<and>
   fst (mark_task_pending example_done_chain ''B'') = Some 1 \<and>
   status (obj (snd (snd (mark_task_pending example_done_chain ''B''))) 1) = Pendente \<and>
   completion_date (obj (snd (snd (mark_task_pending example_done_chain ''B''))) 1) = None"
proof -
  have c: "consistent example_done_chain"
    by (simp add: example_done_chain_def consistent_def example_defs)
  have gA: "get_task_by_id example_done_chain ''A'' = Some 0" and sA: "status (obj example_done_chain 0) = Concluida"
    and gB: "get_task_by_id example_done_chain ''B'' = Some 1" and sB: "status (obj example_done_chain 1) = Concluida"
    and nA: "''A'' \<notin> depends_on_ids (obj example_done_chain 0)"
    by (simp_all add: example_done_chain_def example_defs)
  note TA = mark_task_pending_guard[OF c gA sA]
  note TB = mark_task_pending_guard[OF c gB sB]
  have bA: "\<exists>q \<in> set (tasks example_done_chain). q \<noteq> 0 \<and> ''A'' \<in> depends_on_ids (obj example_done_chain q) \<and>
      status (obj example_done_chain q) = Concluida"
    by (simp add: example_done_chain_def example_defs)
  have fA: "fst (mark_task_pending example_done_chain ''A'') = None"
    using TA[THEN conjunct2, rule_format, OF nA] bA by simp
  have rA: "mark_task_pending example_done_chain ''A'' =
      (None, [CompletedDependents ''A'' [(''B'', ''B'')]], example_done_chain)"
    by (simp add: mark_task_pending_def example_done_chain_def example_defs)
  have bB: "\<not> (\<exists>q \<in> set (tasks example_done_chain). ''B'' \<in> depends_on_ids (obj example_done_chain q) \<and>
      status (obj example_done_chain q) = Concluida)"
    by (simp add: example_done_chain_def example_defs)
  from TB[THEN conjunct1] bB
  have rB: "fst (mark_task_pending example_done_chain ''B'') = Some 1"
    "status (obj (snd (snd (mark_task_pending example_done_chain ''B''))) 1) = Pendente"
    "completion_date (obj (snd (snd (mark_task_pending example_done_chain ''B''))) 1) = None"
    by simp_all
  from c gA sA nA fA rA gB sB rB show ?thesis by simp
qed

section \<open>Transitions requested in the target state\<close>

text \<open>
  C7, as the code decides it. \<open>mark_task_complete\<close> runs the dependency check before
  it looks at the status: on a task that is already Concluida it reports a pending
  dependency as the failed transition does, and it removes unresolved dependency ids
  from the task. The value returned for a task already in the target state is the
  \<open>None\<close> that an unknown id returns as well.
\<close>

theorem already_complete_counterexample:
  "get_task_by_id example_done_blocked ''A'' = Some 0 \<and>
   status (obj example_done_blocked 0) = Concluida \<and>
   mark_task_complete 9 example_done_blocked ''A'' =
     (None, [PendingDependencies ''A'' {(''B'', ''B'')}], example_done_blocked) \<and>
   get_task_by_id example_done_dangling ''A'' = Some 0 \<and>
   status (obj example_done_dangling 0) = Concluida \<and>
   snd (snd (mark_task_complete 9 example_done_dangling ''A'')) \<noteq> example_done_dangling \<and>
   fst (mark_task_pending example_done_blocked ''B'') = fst (mark_task_pending example_done_blocked ''X'')"
  by (simp add: mark_task_complete_def mark_task_pending_def can_complete_task_def is_pending_dep_def
        example_done_blocked_def example_done_dangling_def example_defs Let_def)

text \<open>
  C7 (amended). \<open>mark_task_pending\<close> on a task that is already Pendente changes
  nothing, returns \<open>None\<close> and prints only the already-pending notice.
  \<open>mark_task_complete\<close> on a task that is already Concluida returns \<open>None\<close> and keeps
  its status and completion timestamp; when every dependency of the task resolves to
  a Concluida task it changes nothing and prints only the already-complete notice.
  \<open>None\<close> is also what both methods return for an unknown id: the outcomes differ in
  the message printed, not in the value returned.
\<close>

theorem already_in_target_state:
  "consistent m \<Longrightarrow> get_task_by_id m tid = Some r \<Longrightarrow>
    (status (obj m r) = Pendente \<longrightarrow> mark_task_pending m tid = (None, [AlreadyPending tid], m)) \<and>
    (status (obj m r) = Concluida \<longrightarrow>
       fst (mark_task_complete now m tid) = None \<and>
       status (obj (snd (snd (mark_task_complete now m tid))) r) = Concluida \<and>
       completion_date (obj (snd (snd (mark_task_complete now m tid))) r) = completion_date (obj m r) \<and>
       ((\<forall>d \<in> depends_on_ids (obj m r). \<exists>q. get_task_by_id m d = Some q \<and> status (obj m q) = Concluida) \<longrightarrow>
          mark_task_complete now m tid = (None, [AlreadyComplete tid], m))) \<and>
    (get_task_by_id m x = None \<longrightarrow>
       fst (mark_task_complete now m x) = None \<and> fst (mark_task_pending m x) = None)"
proof (intro conjI impI)
  assume c: "consistent m" and g: "get_task_by_id m tid = Some r"
  note r = consistent_lookup(3)[OF c g]
  note cc = can_complete_task_live[OF g r]
  show "status (obj m r) = Pendente \<Longrightarrow> mark_task_pending m tid = (None, [AlreadyPending tid], m)"
    using g by (simp add: mark_task_pending_def)
  show "get_task_by_id m x = None \<Longrightarrow> fst (mark_task_complete now m x) = None"
    by (simp add: mark_task_complete_def can_complete_task_def)
  show "get_task_by_id m x = None \<Longrightarrow> fst (mark_task_pending m x) = None"
    by (simp add: mark_task_pending_def)
  assume s: "status (obj m r) = Concluida"
  show "fst (mark_task_complete now m tid) = None"
    using g s r by (simp add: mark_task_complete_def cc obj_set_obj)
  show "status (obj (snd (snd (mark_task_complete now m tid))) r) = Concluida"
    using g s r by (simp add: mark_task_complete_def cc obj_set_obj)
  show "completion_date (obj (snd (snd (mark_task_complete now m tid))) r) = completion_date (obj m r)"
    using g s r by (simp add: mark_task_complete_def cc obj_set_obj)
  assume a: "\<forall>d \<in> depends_on_ids (obj m r). \<exists>q. get_task_by_id m d = Some q \<and> status (obj m q) = Concluida"
  then have p: "Set.filter (is_pending_dep m) (depends_on_ids (obj m r)) = {}"
    unfolding pending_deps_empty by auto
  from a have mi: "Set.filter (\<lambda>d. get_task_by_id m d = None) (depends_on_ids (obj m r)) = {}"
    by auto
  have "can_complete_task m tid = (True, [], m)"
    unfolding cc p mi using r by (simp add: set_obj_same)
  with g s show "mark_task_complete now m tid = (None, [AlreadyComplete tid], m)"
    by (simp add: mark_task_complete_def)
qed

theorem already_in_target_state_witness:
  "consistent example_done_chain \<and>
   get_task_by_id example_done_chain ''C'' = Some 2 \<and> status (obj example_done_chain 2) = Pendente \<and>
   mark_task_pending example_done_chain ''C'' = (None, [AlreadyPending ''C''], example_done_chain) \<and>
   get_task_by_id example_done_chain ''B'' = Some 1 \<and> status (obj example_done_chain 1) = Concluida \<and>
   depends_on_ids (obj example_done_chain 1) = {''A''} \<and>
   get_task_by_id example_done_chain ''A'' = Some 0 \<and> status (obj example_done_chain 0) = Concluida \<and>
   mark_task_complete 9 example_done_chain ''B'' = (None, [AlreadyComplete ''B''], example_done_chain) \<and>
   get_task_by_id example_done_chain ''X'' = None \<and>
   fst (mark_task_complete 9 example_done_chain ''X'') = None"
proof -
  have c: "consistent example_done_chain"
    by (simp add: example_done_chain_def consistent_def example_defs)
  have gC: "get_task_by_id example_done_chain ''C'' = Some 2" and sC: "status (obj example_done_chain 2) = Pendente"
    and gB: "get_task_by_id example_done_chain ''B'' = Some 1" and sB: "status (obj example_done_chain 1) = Concluida"
    and gX: "get_task_by_id example_done_chain ''X'' = None"
    and dB: "\<forall>d \<in> depends_on_ids (obj example_done_chain 1).
       \<exists>q. get_task_by_id example_done_chain d = Some q \<and> status (obj example_done_chain q) = Concluida"
    by (simp_all add: example_done_chain_def example_defs)
  note TC = already_in_target_state[OF c gC, of 9 "''X''"]
  note TB = already_in_target_state[OF c gB, of 9 "''X''"]
  have rC: "mark_task_pending example_done_chain ''C'' = (None, [AlreadyPending ''C''], example_done_chain)"
    using TC[THEN conjunct1, rule_format, OF sC] .
  have rB: "mark_task_complete 9 example_done_chain ''B'' = (None, [AlreadyComplete ''B''], example_done_chain)"
    using TB[THEN conjunct2, THEN conjunct1, rule_format, OF sB] dB by blast
  have rX: "fst (mark_task_complete 9 example_done_chain ''X'') = None"
    using TB[THEN conjunct2, THEN conjunct2, rule_format, OF gX] by simp
  have dA: "depends_on_ids (obj example_done_chain 1) = {''A''}"
    "get_task_by_id example_done_chain ''A'' = Some 0" "status (obj example_done_chain 0) = Concluida"
    by (simp_all add: example_done_chain_def example_defs)
  from c gC sC rC gB sB dA rB gX rX show ?thesis by simp
qed

section \<open>Consistency after loading and under the remaining operations\<close>

lemma find_append_eq:
  "find P (xs @ ys) = (case find P xs of None \<Rightarrow> find P ys | Some x \<Rightarrow> Some x)"
  by (induction xs) auto

lemma find_SomeD: "find P xs = Some x \<Longrightarrow> x \<in> set xs \<and> P x"
  by (induction xs) (auto split: if_splits)

lemma fold_update_map_of:
  "map_of (fold (\<lambda>r al. AList.update (f r) r al) rs al) k =
     (case find (\<lambda>r. f r = k) (rev rs) of Some r \<Rightarrow> Some r | None \<Rightarrow> map_of al k)"
proof (induction rs arbitrary: al)
  case Nil
  show ?case by simp
next
  case (Cons r rs)
  show ?case
    by (simp add: Cons.IH update_conv' find_append_eq split: option.splits)
qed

lemma fold_update_distinct:
  "distinct (map fst al) \<Longrightarrow> distinct (map fst (fold (\<lambda>r al. AList.update (f r) r al) rs al))"
  by (induction rs arbitrary: al) (simp_all add: distinct_update)

lemma manager_init_consistent:
  assumes d: "distinct (map task_id loaded)"
  shows "consistent (manager_init loaded)"
proof -
  let ?m = "manager_init loaded"
  let ?n = "length loaded"
  have g: "get_task_by_id ?m k = find (\<lambda>r. task_id (loaded ! r) = k) (rev [0..<?n])" for k
    by (simp add: get_task_by_id_def manager_init_def fold_update_map_of split: option.splits)
  have o: "obj ?m r = loaded ! r" for r by (simp add: obj_def manager_init_def)
  have inj: "task_id (loaded ! q) = task_id (loaded ! r) \<Longrightarrow> q = r" if "q < ?n" "r < ?n" for q r
    using d that by (auto simp: distinct_conv_nth)
  show ?thesis
    unfolding consistent_alt
  proof (intro conjI ballI allI impI)
    show "distinct (tasks ?m)" by (simp add: manager_init_def)
    show "distinct (map fst (task_map ?m))" by (simp add: manager_init_def fold_update_distinct)
  next
    fix r assume "r \<in> set (tasks ?m)"
    then have r: "r < ?n" by (simp add: manager_init_def)
    then show "r < length (heap ?m)" by (simp add: manager_init_def)
    from r have "find (\<lambda>q. task_id (loaded ! q) = task_id (loaded ! r)) (rev [0..<?n]) \<noteq> None"
      by (auto simp: find_None_iff)
    then obtain q where q: "find (\<lambda>q. task_id (loaded ! q) = task_id (loaded ! r)) (rev [0..<?n]) = Some q"
      by auto
    from find_SomeD[OF this] have "q < ?n" "task_id (loaded ! q) = task_id (loaded ! r)"
      by simp_all
    with inj[OF _ r] q show "get_task_by_id ?m (task_id (obj ?m r)) = Some r" by (simp add: g o)
  next
    fix k r assume "get_task_by_id ?m k = Some r"
    then have f: "find (\<lambda>r. task_id (loaded ! r) = k) (rev [0..<?n]) = Some r" by (simp add: g)
    from find_SomeD[OF this] have "r \<in> set (rev [0..<?n])" "task_id (loaded ! r) = k"
      by simp_all
    then show "r \<in> set (tasks ?m)" "task_id (obj ?m r) = k"
      by (simp_all add: o) (simp add: manager_init_def)
  qed
qed

lemma mark_task_complete_consistent:
  "consistent m \<Longrightarrow> consistent (snd (snd (mark_task_complete now m tid)))"
  by (auto simp: mark_task_complete_def can_complete_task_def Let_def mark_complete_def obj_set_obj
        intro!: consistent_set_obj split: option.splits if_splits)

lemma mark_task_pending_consistent:
  "consistent m \<Longrightarrow> consistent (snd (snd (mark_task_pending m tid)))"
  by (auto simp: mark_task_pending_def Let_def mark_pending_def intro!: consistent_set_obj split: option.splits)

lemma add_tag_consistent:
  "consistent m \<Longrightarrow> consistent (snd (snd (add_tag_to_task lw m tid tag ty)))"
  by (auto simp: add_tag_to_task_def Let_def set_tag_set_def intro!: consistent_set_obj split: option.splits)

lemma remove_tag_consistent:
  "consistent m \<Longrightarrow> consistent (snd (snd (remove_tag_from_task lw m tid tag ty)))"
  by (auto simp: remove_tag_from_task_def Let_def set_tag_set_def intro!: consistent_set_obj split: option.splits)

section \<open>Normalizing a tag\<close>

lemma is_space_blank [simp]: "is_space blank"
  by (simp add: is_space_def blank_def)

lemma words_of_Nil [simp]: "words_of [] = []"
  by (simp add: words_of.simps)

lemma words_of_space: "is_space c \<Longrightarrow> words_of (c # cs) = words_of cs"
  by (subst words_of.simps, subst (2) words_of.simps) simp

lemma words_of_nonspace:
  "\<not> is_space c \<Longrightarrow>
     words_of (c # cs) = (c # takeWhile (\<lambda>x. \<not> is_space x) cs) # words_of (dropWhile (\<lambda>x. \<not> is_space x) cs)"
  by (subst words_of.simps) simp

lemma words_of_dropWhile: "words_of (dropWhile is_space s) = words_of s"
  by (induction s) (simp_all add: words_of_space)

lemma words_of_nonempty: "[] \<notin> set (words_of s)"
proof (induction s rule: words_of.induct)
  case (1 s)
  show ?case
  proof (cases "dropWhile is_space s")
    case Nil
    then show ?thesis by (subst words_of.simps) (simp del: dropWhile_eq_Nil_conv)
  next
    case (Cons c cs)
    with 1[OF Cons] show ?thesis by (subst words_of.simps) simp
  qed
qed

lemma words_of_no_space: "w \<in> set (words_of s) \<Longrightarrow> c \<in> set w \<Longrightarrow> \<not> is_space c"
proof (induction s arbitrary: w rule: words_of.induct)
  case (1 s)
  show ?case
  proof (cases "dropWhile is_space s")
    case Nil
    with "1.prems" show ?thesis by (simp add: words_of.simps[of s] del: dropWhile_eq_Nil_conv)
  next
    case (Cons d ds)
    then have d: "\<not> is_space d" using hd_dropWhile[of is_space s] by auto
    from "1.prems"(1) Cons have "w = d # takeWhile (\<lambda>x. \<not> is_space x) ds \<or>
        w \<in> set (words_of (dropWhile (\<lambda>x. \<not> is_space x) ds))"
      by (simp add: words_of.simps[of s])
    then show ?thesis
    proof
      assume "w = d # takeWhile (\<lambda>x. \<not> is_space x) ds"
      with "1.prems"(2) d show ?thesis by (auto dest: set_takeWhileD)
    next
      assume "w \<in> set (words_of (dropWhile (\<lambda>x. \<not> is_space x) ds))"
      from "1.IH"[OF Cons this "1.prems"(2)] show ?thesis .
    qed
  qed
qed

lemma concat_words_of: "concat (words_of s) = filter (\<lambda>x. \<not> is_space x) s"
proof (induction s rule: words_of.induct)
  case (1 s)
  have f: "filter (\<lambda>x. \<not> is_space x) s = filter (\<lambda>x. \<not> is_space x) (dropWhile is_space s)"
    by (induction s) auto
  show ?case
  proof (cases "dropWhile is_space s")
    case Nil
    then show ?thesis by (simp add: words_of.simps[of s] f del: dropWhile_eq_Nil_conv)
  next
    case (Cons d ds)
    then have d: "\<not> is_space d" using hd_dropWhile[of is_space s] by auto
    have t: "takeWhile (\<lambda>x. \<not> is_space x) ds = filter (\<lambda>x. \<not> is_space x) (takeWhile (\<lambda>x. \<not> is_space x) ds)"
    proof -
      have "\<forall>x \<in> set (takeWhile (\<lambda>x. \<not> is_space x) ds). \<not> is_space x"
        by (auto dest: set_takeWhileD)
      then show ?thesis by simp
    qed
    have "filter (\<lambda>x. \<not> is_space x) ds =
        filter (\<lambda>x. \<not> is_space x) (takeWhile (\<lambda>x. \<not> is_space x) ds @ dropWhile (\<lambda>x. \<not> is_space x) ds)"
      by simp
    also have "\<dots> = takeWhile (\<lambda>x. \<not> is_space x) ds @ filter (\<lambda>x. \<not> is_space x) (dropWhile (\<lambda>x. \<not> is_space x) ds)"
      using t by (simp only: filter_append)
    finally show ?thesis using Cons d "1.IH"[OF Cons] by (simp add: words_of.simps[of s] f)
  qed
qed

lemma join_blank_Nil_iff: "[] \<notin> set ws \<Longrightarrow> join_blank ws = [] \<longleftrightarrow> ws = []"
  by (induction ws rule: join_blank.induct) auto

lemma join_blank_Cons:
  "join_blank (w # ws) = w @ (if ws = [] then [] else blank # join_blank ws)"
  by (cases ws) auto


lemma joined_words_Nil_iff: "joined_words s = [] \<longleftrightarrow> words_of s = []"
  by (simp add: joined_words_def join_blank_Nil_iff words_of_nonempty)

lemma joined_words_one: "\<not> is_space c \<Longrightarrow> joined_words [c] = [c]"
  by (simp add: joined_words_def words_of_nonspace)

lemma joined_words_two: "\<not> is_space c \<Longrightarrow> \<not> is_space d \<Longrightarrow> joined_words (c # d # cs) = c # joined_words (d # cs)"
  by (simp add: joined_words_def words_of_nonspace join_blank_Cons)

lemma joined_words_gap:
  "\<not> is_space c \<Longrightarrow> is_space d \<Longrightarrow>
     joined_words (c # d # cs) = c # (if joined_words (d # cs) = [] then [] else blank # joined_words (d # cs))"
  by (simp add: joined_words_Nil_iff) (simp add: joined_words_def words_of_nonspace join_blank_Cons)

lemma rstrip_Nil_iff: "rstrip t = [] \<longleftrightarrow> (\<forall>c \<in> set t. is_space c)"
  by (auto simp: rstrip_def dropWhile_eq_Nil_conv)

lemma rstrip_Cons: "rstrip (x # t) = (if rstrip t = [] \<and> is_space x then [] else x # rstrip t)"
proof (cases "\<forall>c \<in> set t. is_space c")
  case True
  then have "dropWhile is_space (rev t @ [x]) = dropWhile is_space [x]"
    by (intro dropWhile_append2) simp
  with True show ?thesis by (simp add: rstrip_def dropWhile_eq_Nil_conv)
next
  case False
  then obtain y where "y \<in> set (rev t)" "\<not> is_space y" by auto
  then have "dropWhile is_space (rev t @ [x]) = dropWhile is_space (rev t) @ [x]"
    by (intro dropWhile_append1) auto
  with False show ?thesis by (auto simp: rstrip_def dropWhile_eq_Nil_conv)
qed

lemma rstrip_collapse_ws:
  "rstrip (collapse_ws s) =
     (if s = [] then [] else if is_space (hd s) then (if joined_words s = [] then [] else blank # joined_words s) else joined_words s)"
proof (induction s rule: collapse_ws.induct)
  case 1
  show ?case by (simp add: rstrip_def)
next
  case (2 c cs)
  show ?case
  proof (cases "is_space c")
    case True
    let ?d = "dropWhile is_space cs"
    have jd: "joined_words (c # cs) = joined_words ?d"
      using True by (simp add: joined_words_def words_of_space words_of_dropWhile)
    have "rstrip (collapse_ws ?d) = joined_words ?d"
    proof (cases ?d)
      case Nil
      then show ?thesis by (simp add: rstrip_def joined_words_def del: dropWhile_eq_Nil_conv)
    next
      case (Cons e es)
      then have "\<not> is_space e" using hd_dropWhile[of is_space cs] by auto
      with 2(1)[OF True] Cons show ?thesis by simp
    qed
    with True jd show ?thesis by (simp add: rstrip_Cons)
  next
    case False
    note IH = 2(2)[OF False]
    show ?thesis
    proof (cases cs)
      case Nil
      with False show ?thesis by (simp add: rstrip_Cons joined_words_one rstrip_def)
    next
      case (Cons d ds)
      with False IH show ?thesis
        by (cases "is_space d") (simp_all add: rstrip_Cons joined_words_two joined_words_gap)
    qed
  qed
qed

lemma dropWhile_collapse_ws: "dropWhile is_space (collapse_ws s) = collapse_ws (dropWhile is_space s)"
proof (cases s)
  case Nil
  then show ?thesis by simp
next
  case (Cons c cs)
  show ?thesis
  proof (cases "is_space c")
    case True
    let ?d = "dropWhile is_space cs"
    have "dropWhile is_space (collapse_ws ?d) = collapse_ws ?d"
    proof (cases ?d)
      case Nil
      then show ?thesis by (simp del: dropWhile_eq_Nil_conv)
    next
      case (Cons e es)
      then have "\<not> is_space e" using hd_dropWhile[of is_space cs] by auto
      with Cons show ?thesis by simp
    qed
    with True Cons show ?thesis by simp
  next
    case False
    with Cons show ?thesis by simp
  qed
qed

lemma strip_collapse_ws: "strip (collapse_ws s) = join_blank (words_of s)"
proof -
  let ?d = "dropWhile is_space s"
  have "strip (collapse_ws s) = rstrip (collapse_ws ?d)"
    by (simp add: strip_def rstrip_def dropWhile_collapse_ws)
  also have "\<dots> = joined_words ?d"
  proof (cases ?d)
    case Nil
    then show ?thesis by (simp add: rstrip_collapse_ws joined_words_def rstrip_def del: dropWhile_eq_Nil_conv)
  next
    case (Cons e es)
    then have "\<not> is_space e" using hd_dropWhile[of is_space s] by auto
    with Cons rstrip_collapse_ws[of "e # es"] show ?thesis by (simp del: collapse_ws.simps)
  qed
  also have "\<dots> = join_blank (words_of s)" by (simp add: joined_words_def words_of_dropWhile)
  finally show ?thesis .
qed


lemma words_of_ws_append: "\<forall>c \<in> set a. is_space c \<Longrightarrow> words_of (a @ s) = words_of s"
  by (induction a) (simp_all add: words_of_space)

lemma words_of_word_append:
  assumes "u \<noteq> []" "\<forall>c \<in> set u. \<not> is_space c" "s = [] \<or> is_space (hd s)"
  shows "words_of (u @ s) = u # words_of s"
proof -
  from assms(1) obtain c u' where u: "u = c # u'" by (cases u) auto
  from assms(3) have t: "takeWhile (\<lambda>x. \<not> is_space x) s = []" and d: "dropWhile (\<lambda>x. \<not> is_space x) s = s"
    by (cases s; auto)+
  from assms(2) u have a: "\<And>x. x \<in> set u' \<Longrightarrow> \<not> is_space x" by simp
  have "takeWhile (\<lambda>x. \<not> is_space x) (u' @ s) = u'"
    using takeWhile_append2[of u' "\<lambda>x. \<not> is_space x" s] a t by simp
  moreover have "dropWhile (\<lambda>x. \<not> is_space x) (u' @ s) = s"
    using dropWhile_append2[of u' "\<lambda>x. \<not> is_space x" s] a d by simp
  ultimately show ?thesis using assms(2) u by (simp add: words_of_nonspace)
qed

lemma words_of_two:
  assumes "\<forall>c \<in> set a. is_space c" "\<forall>c \<in> set b. is_space c" "b \<noteq> []" "\<forall>c \<in> set e. is_space c"
    "u \<noteq> []" "\<forall>c \<in> set u. \<not> is_space c" "v \<noteq> []" "\<forall>c \<in> set v. \<not> is_space c"
  shows "words_of (a @ u @ b @ v @ e) = [u, v]"
proof -
  have e0: "words_of e = []" using words_of_ws_append[OF assms(4), of "[]"] by simp
  have he: "e = [] \<or> is_space (hd e)" using assms(4) by (cases e) auto
  have hb: "b @ v @ e = [] \<or> is_space (hd (b @ v @ e))" using assms(2,3) by (cases b) auto
  have "words_of (a @ u @ b @ v @ e) = words_of (u @ b @ v @ e)"
    by (rule words_of_ws_append[OF assms(1)])
  also have "\<dots> = u # words_of (b @ v @ e)"
    by (rule words_of_word_append[OF assms(5,6) hb])
  also have "words_of (b @ v @ e) = words_of (v @ e)"
    by (rule words_of_ws_append[OF assms(2)])
  also have "\<dots> = v # words_of e"
    by (rule words_of_word_append[OF assms(7,8) he])
  finally show ?thesis by (simp add: e0)
qed

lemma normalize_tag_spec: "normalize_tag lw s = spec_normalize lw s"
  by (simp add: normalize_tag_def spec_normalize_def joined_words_def strip_collapse_ws)

lemma tag_set_set_tag_set [simp]: "tag_set ty (set_tag_set ty S t) = S"
  by (simp add: tag_set_def set_tag_set_def)

lemma add_tag_new:
  assumes c: "consistent m" and g: "get_task_by_id m tid = Some r" and n: "normalize_tag lw x \<noteq> []"
  shows "fst (add_tag_to_task lw m tid x ty)"
    and "tag_set ty (obj (snd (snd (add_tag_to_task lw m tid x ty))) r) =
           insert (normalize_tag lw x) (tag_set ty (obj m r))"
    and "normalize_tag lw y = normalize_tag lw x \<Longrightarrow>
           add_tag_to_task lw (snd (snd (add_tag_to_task lw m tid x ty))) tid y ty =
             (True, [AlreadyHasTag tid ty (normalize_tag lw x)], snd (snd (add_tag_to_task lw m tid x ty)))"
proof -
  note r = consistent_lookup(3)[OF c g]
  let ?m1 = "snd (snd (add_tag_to_task lw m tid x ty))"
  have m1: "?m1 = (if normalize_tag lw x \<in> tag_set ty (obj m r) then m
      else set_obj m r (set_tag_set ty (insert (normalize_tag lw x) (tag_set ty (obj m r))) (obj m r)))"
    using g n by (simp add: add_tag_to_task_def Let_def)
  show "fst (add_tag_to_task lw m tid x ty)" using g n by (simp add: add_tag_to_task_def Let_def)
  show ts: "tag_set ty (obj ?m1 r) = insert (normalize_tag lw x) (tag_set ty (obj m r))"
    unfolding m1 using r by (auto simp: obj_set_obj)
  assume y: "normalize_tag lw y = normalize_tag lw x"
  have g1: "get_task_by_id ?m1 tid = Some r" unfolding m1 using g by simp
  from ts have "normalize_tag lw y \<in> tag_set ty (obj ?m1 r)" by (simp add: y)
  with g1 n y show "add_tag_to_task lw ?m1 tid y ty = (True, [AlreadyHasTag tid ty (normalize_tag lw x)], ?m1)"
    by (simp add: add_tag_to_task_def[of lw ?m1] Let_def)
qed

lemma text_of_work_nonempty: "text_of ''work'' \<noteq> []"
  by (simp add: text_of_def)

section \<open>Adding and removing tags\<close>

text \<open>
  C9. A tag is normalized before it is looked up or stored, and the normal form is the
  one the specification describes: the words of the tag (its maximal runs of
  characters that are not whitespace, which keep every such character in order), joined
  by single blanks, then lower-cased. Leading and trailing whitespace disappears and an
  interior run of whitespace becomes one blank. Adding a tag whose normal form is not
  empty succeeds and stores that form; adding afterwards any tag with the same normal
  form succeeds as a no-op, so \<open>'' Work ''\<close> and then \<open>''work''\<close> leave the one tag
  \<open>''work''\<close>. Removing a tag whose normal form is not on the task fails with the
  not-in-tag message and changes nothing. A tag that normalizes to the empty string,
  such as one made of a no-break space and an em space, is rejected.
\<close>

theorem tag_mutation_normalized:
  "consistent m \<Longrightarrow> get_task_by_id m tid = Some r \<Longrightarrow>
    normalize_tag lw x = spec_normalize lw x \<and>
    (\<forall>w \<in> set (words_of x). w \<noteq> [] \<and> (\<forall>c \<in> set w. \<not> is_space c)) \<and>
    concat (words_of x) = filter (\<lambda>c. \<not> is_space c) x \<and>
    ((\<forall>c \<in> set a. is_space c) \<and> (\<forall>c \<in> set b. is_space c) \<and> b \<noteq> [] \<and> (\<forall>c \<in> set e. is_space c) \<and>
     u \<noteq> [] \<and> (\<forall>c \<in> set u. \<not> is_space c) \<and> v \<noteq> [] \<and> (\<forall>c \<in> set v. \<not> is_space c) \<longrightarrow>
       normalize_tag lw (a @ u @ b @ v @ e) = lw (u @ blank # v)) \<and>
    (normalize_tag lw x = [] \<longrightarrow> add_tag_to_task lw m tid x ty = (False, [InvalidTagName ty], m)) \<and>
    (normalize_tag lw x \<noteq> [] \<longrightarrow>
       fst (add_tag_to_task lw m tid x ty) \<and>
       tag_set ty (obj (snd (snd (add_tag_to_task lw m tid x ty))) r) =
         insert (normalize_tag lw x) (tag_set ty (obj m r)) \<and>
       (\<forall>y. normalize_tag lw y = normalize_tag lw x \<longrightarrow>
          add_tag_to_task lw (snd (snd (add_tag_to_task lw m tid x ty))) tid y ty =
            (True, [AlreadyHasTag tid ty (normalize_tag lw x)], snd (snd (add_tag_to_task lw m tid x ty))))) \<and>
    (normalize_tag lw x \<notin> tag_set ty (obj m r) \<longrightarrow>
       remove_tag_from_task lw m tid x ty = (False, [NotInTag tid ty (normalize_tag lw x)], m)) \<and>
    (lw (text_of ''Work'') = text_of ''work'' \<and> lw (text_of ''work'') = text_of ''work'' \<longrightarrow>
       normalize_tag lw (text_of '' Work '') = text_of ''work'' \<and>
       normalize_tag lw (text_of ''work'') = text_of ''work'' \<and>
       tag_set ty (obj (snd (snd (add_tag_to_task lw m tid (text_of '' Work '') ty))) r) =
         insert (text_of ''work'') (tag_set ty (obj m r)) \<and>
       add_tag_to_task lw (snd (snd (add_tag_to_task lw m tid (text_of '' Work '') ty))) tid (text_of ''work'') ty =
         (True, [AlreadyHasTag tid ty (text_of ''work'')],
          snd (snd (add_tag_to_task lw m tid (text_of '' Work '') ty)))) \<and>
    (lw [] = [] \<longrightarrow>
       normalize_tag lw [0xA0, 0x2003] = [] \<and>
       add_tag_to_task lw m tid [0xA0, 0x2003] ty = (False, [InvalidTagName ty], m))"
proof (intro conjI impI)
  assume c: "consistent m" and g: "get_task_by_id m tid = Some r"
  show "normalize_tag lw x = spec_normalize lw x" by (rule normalize_tag_spec)
  show "\<forall>w \<in> set (words_of x). w \<noteq> [] \<and> (\<forall>c \<in> set w. \<not> is_space c)"
    using words_of_nonempty[of x] words_of_no_space[of _ x] by blast
  show "concat (words_of x) = filter (\<lambda>c. \<not> is_space c) x" by (rule concat_words_of)
  show rej: "normalize_tag lw z = [] \<Longrightarrow> add_tag_to_task lw m tid z ty = (False, [InvalidTagName ty], m)" for z
    using g by (simp add: add_tag_to_task_def Let_def)
  show "normalize_tag lw x \<notin> tag_set ty (obj m r) \<Longrightarrow>
       remove_tag_from_task lw m tid x ty = (False, [NotInTag tid ty (normalize_tag lw x)], m)"
    using g by (simp add: remove_tag_from_task_def Let_def)
  {
    assume "(\<forall>c \<in> set a. is_space c) \<and> (\<forall>c \<in> set b. is_space c) \<and> b \<noteq> [] \<and> (\<forall>c \<in> set e. is_space c) \<and>
     u \<noteq> [] \<and> (\<forall>c \<in> set u. \<not> is_space c) \<and> v \<noteq> [] \<and> (\<forall>c \<in> set v. \<not> is_space c)"
    then have "words_of (a @ u @ b @ v @ e) = [u, v]" by (intro words_of_two) blast+
    then show "normalize_tag lw (a @ u @ b @ v @ e) = lw (u @ blank # v)"
      by (simp add: normalize_tag_spec spec_normalize_def joined_words_def)
  }
  {
    assume n: "normalize_tag lw x \<noteq> []"
    show "fst (add_tag_to_task lw m tid x ty)" by (rule add_tag_new(1)[OF c g n])
    show "tag_set ty (obj (snd (snd (add_tag_to_task lw m tid x ty))) r) =
         insert (normalize_tag lw x) (tag_set ty (obj m r))" by (rule add_tag_new(2)[OF c g n])
    show "\<forall>y. normalize_tag lw y = normalize_tag lw x \<longrightarrow>
          add_tag_to_task lw (snd (snd (add_tag_to_task lw m tid x ty))) tid y ty =
            (True, [AlreadyHasTag tid ty (normalize_tag lw x)], snd (snd (add_tag_to_task lw m tid x ty)))"
      using add_tag_new(3)[OF c g n] by blast
  }
  {
    assume l: "lw (text_of ''Work'') = text_of ''work'' \<and> lw (text_of ''work'') = text_of ''work''"
    have s1: "strip (collapse_ws (text_of '' Work '')) = text_of ''Work''"
      by (simp add: text_of_def strip_def is_space_def blank_def)
    have s2: "strip (collapse_ws (text_of ''work'')) = text_of ''work''"
      by (simp add: text_of_def strip_def is_space_def blank_def)
    from l show n1: "normalize_tag lw (text_of '' Work '') = text_of ''work''"
      by (simp add: normalize_tag_def s1)
    from l show n2: "normalize_tag lw (text_of ''work'') = text_of ''work''"
      by (simp add: normalize_tag_def s2)
    have n: "normalize_tag lw (text_of '' Work '') \<noteq> []" by (simp add: n1 text_of_work_nonempty)
    from add_tag_new(2)[OF c g n, of ty]
    show "tag_set ty (obj (snd (snd (add_tag_to_task lw m tid (text_of '' Work '') ty))) r) =
         insert (text_of ''work'') (tag_set ty (obj m r))" by (simp add: n1)
    from add_tag_new(3)[OF c g n, of "text_of ''work''" ty]
    show "add_tag_to_task lw (snd (snd (add_tag_to_task lw m tid (text_of '' Work '') ty))) tid (text_of ''work'') ty =
         (True, [AlreadyHasTag tid ty (text_of ''work'')],
          snd (snd (add_tag_to_task lw m tid (text_of '' Work '') ty)))" by (simp add: n1 n2)
  }
  {
    assume e: "lw [] = []"
    have "strip (collapse_ws [0xA0, 0x2003]) = []"
      by (simp add: strip_def is_space_def blank_def)
    with e show z: "normalize_tag lw [0xA0, 0x2003] = []" by (simp add: normalize_tag_def)
    from rej[OF z] show "add_tag_to_task lw m tid [0xA0, 0x2003] ty = (False, [InvalidTagName ty], m)" .
  }
qed


theorem tag_mutation_normalized_witness:
  "consistent example_abc \<and> get_task_by_id example_abc ''A'' = Some 0 \<and>
   ascii_lower (text_of ''Work'') = text_of ''work'' \<and> ascii_lower (text_of ''work'') = text_of ''work'' \<and>
   ascii_lower [] = [] \<and>
   normalize_tag ascii_lower (text_of '' Work '') = text_of ''work'' \<and>
   normalize_tag ascii_lower (text_of ''work'') = text_of ''work'' \<and>
   projects (obj (snd (snd (add_tag_to_task ascii_lower example_abc ''A'' (text_of '' Work '') ''projeto''))) 0) =
     {text_of ''work''} \<and>
   add_tag_to_task ascii_lower
       (snd (snd (add_tag_to_task ascii_lower example_abc ''A'' (text_of '' Work '') ''projeto'')))
       ''A'' (text_of ''work'') ''projeto'' =
     (True, [AlreadyHasTag ''A'' ''projeto'' (text_of ''work'')],
      snd (snd (add_tag_to_task ascii_lower example_abc ''A'' (text_of '' Work '') ''projeto''))) \<and>
   normalize_tag ascii_lower (text_of ''Home'') \<notin> tag_set ''projeto'' (obj example_abc 0) \<and>
   remove_tag_from_task ascii_lower example_abc ''A'' (text_of ''Home'') ''projeto'' =
     (False, [NotInTag ''A'' ''projeto'' (text_of ''home'')], example_abc) \<and>
   add_tag_to_task ascii_lower example_abc ''A'' [0xA0, 0x2003] ''contexto'' =
     (False, [InvalidTagName ''contexto''], example_abc) \<and>
   normalize_tag ascii_lower (text_of ''  Home   Office '') = text_of ''home office'' \<and>
   spec_normalize ascii_lower (text_of ''  Home   Office '') = text_of ''home office''"
proof -
  have c: "consistent example_abc"
    by (simp add: example_abc_def consistent_def example_defs)
  have g: "get_task_by_id example_abc ''A'' = Some 0"
    by (simp add: example_abc_def example_defs)
  have l: "ascii_lower (text_of ''Work'') = text_of ''work'' \<and> ascii_lower (text_of ''work'') = text_of ''work''"
    by (simp add: ascii_lower_def text_of_def)
  have l0: "ascii_lower [] = []" by (simp add: ascii_lower_def)
  have p0: "tag_set ''projeto'' (obj example_abc 0) = {}"
    by (simp add: tag_set_def example_abc_def example_defs)
  have ts: "tag_set ''projeto'' t = projects t" for t by (simp add: tag_set_def)
  note P = tag_mutation_normalized[OF c g, where lw = ascii_lower and ty = "''projeto''"]
  note W = P[THEN conjunct2, THEN conjunct2, THEN conjunct2, THEN conjunct2, THEN conjunct2,
             THEN conjunct2, THEN conjunct2, THEN conjunct1, rule_format, OF l]
  have n1: "normalize_tag ascii_lower (text_of '' Work '') = text_of ''work''"
    and n2: "normalize_tag ascii_lower (text_of ''work'') = text_of ''work''"
    using W by simp_all
  have a2: "projects (obj (snd (snd (add_tag_to_task ascii_lower example_abc ''A'' (text_of '' Work '') ''projeto''))) 0) =
     {text_of ''work''}"
    using W by (simp add: p0 ts[symmetric])
  have a3: "add_tag_to_task ascii_lower
       (snd (snd (add_tag_to_task ascii_lower example_abc ''A'' (text_of '' Work '') ''projeto'')))
       ''A'' (text_of ''work'') ''projeto'' =
     (True, [AlreadyHasTag ''A'' ''projeto'' (text_of ''work'')],
      snd (snd (add_tag_to_task ascii_lower example_abc ''A'' (text_of '' Work '') ''projeto'')))"
    using W by simp
  have nh: "normalize_tag ascii_lower (text_of ''Home'') = text_of ''home''"
    by (simp add: normalize_tag_def ascii_lower_def text_of_def strip_def is_space_def blank_def)
  have h: "normalize_tag ascii_lower (text_of ''Home'') \<notin> tag_set ''projeto'' (obj example_abc 0)"
    by (simp add: p0)
  have a4: "remove_tag_from_task ascii_lower example_abc ''A'' (text_of ''Home'') ''projeto'' =
     (False, [NotInTag ''A'' ''projeto'' (text_of ''home'')], example_abc)"
    using P[where x = "text_of ''Home''", THEN conjunct2, THEN conjunct2, THEN conjunct2, THEN conjunct2,
            THEN conjunct2, THEN conjunct2, THEN conjunct1, rule_format, OF h]
    by (simp add: nh)
  have a5: "add_tag_to_task ascii_lower example_abc ''A'' [0xA0, 0x2003] ''contexto'' =
     (False, [InvalidTagName ''contexto''], example_abc)"
    using tag_mutation_normalized[OF c g, where lw = ascii_lower and ty = "''contexto''",
            THEN conjunct2, THEN conjunct2, THEN conjunct2, THEN conjunct2, THEN conjunct2,
            THEN conjunct2, THEN conjunct2, THEN conjunct2, rule_format, OF l0]
    by simp
  have sp: "(\<forall>c \<in> set (text_of ''  ''). is_space c) \<and> (\<forall>c \<in> set (text_of ''   ''). is_space c) \<and>
     text_of ''   '' \<noteq> [] \<and> (\<forall>c \<in> set (text_of '' ''). is_space c) \<and>
     text_of ''Home'' \<noteq> [] \<and> (\<forall>c \<in> set (text_of ''Home''). \<not> is_space c) \<and>
     text_of ''Office'' \<noteq> [] \<and> (\<forall>c \<in> set (text_of ''Office''). \<not> is_space c)"
    by (simp add: text_of_def is_space_def)
  have cat: "text_of ''  '' @ text_of ''Home'' @ text_of ''   '' @ text_of ''Office'' @ text_of '' '' =
      text_of ''  Home   Office ''"
    by (simp add: text_of_def)
  have low: "ascii_lower (text_of ''Home'' @ blank # text_of ''Office'') = text_of ''home office''"
    by (simp add: ascii_lower_def text_of_def blank_def)
  have a6: "normalize_tag ascii_lower (text_of ''  Home   Office '') = text_of ''home office''"
    using P[THEN conjunct2, THEN conjunct2, THEN conjunct2, THEN conjunct1, rule_format, OF sp]
    by (simp only: cat low)
  have a7: "spec_normalize ascii_lower (text_of ''  Home   Office '') = text_of ''home office''"
    using P[where x = "text_of ''  Home   Office ''", THEN conjunct1] a6 by simp
  from c g l l0 n1 n2 a2 a3 h a4 a5 a6 a7 show ?thesis by simp
qed

end
